theory Spec2Isabelle
  imports Main "HOL-Library.Word" "HOL-Library.Sublist" "HOL-Library.AList"
begin

unbundle bit_operations_syntax

section \<open>Supernote note parser and PDF emitter (src/api/note-parser.ts)\<close>

text \<open>
  The embedding follows \<^verbatim>\<open>src/src/api/note-parser.ts\<close>.
  A \<^verbatim>\<open>Uint8Array\<close> is a list of 8-bit words. Pixel dimensions are natural
  numbers. A loop that pushes onto a growable array appends to a list.
\<close>

type_synonym byte = "8 word"

subsection \<open>Run-length decoder: \<^verbatim>\<open>decodeRLE\<close>\<close>

text \<open>
  The source writes the expression \<^verbatim>\<open>((lengthCode & 0x7f) + 1) << 7\<close> three times
  (lines 291, 293 and 317); it is named once here.
\<close>

definition held_length :: "byte \<Rightarrow> nat" where
  "held_length lengthCode = push_bit 7 (unat (lengthCode AND 0x7f) + 1)"

text \<open>
  The \<^verbatim>\<open>while\<close> loop of lines 277 to 311. The index \<^verbatim>\<open>i\<close> advances by two
  on every iteration, so the loop consumes the input pair by pair from the front;
  the second equation is the exit, either at the end of the input or at the
  \<^verbatim>\<open>break\<close> of line 278 where a single byte is left. The result is the output
  array and the holder as they stand when the loop exits.
\<close>

fun rle_loop :: "byte list \<Rightarrow> (byte \<times> byte) option \<Rightarrow> byte list
    \<Rightarrow> byte list \<times> (byte \<times> byte) option" where
  "rle_loop (colorCode # lengthCode # rest) holder decompressed =
     (case holder of
        Some (prevColorCode, prevLengthCode) \<Rightarrow>
          (if colorCode = prevColorCode
           then rle_loop rest None
                  (decompressed @
                   replicate (1 + unat lengthCode + held_length prevLengthCode) colorCode)
           else rle_loop rest None
                  ((decompressed @ replicate (held_length prevLengthCode) prevColorCode) @
                   replicate (unat lengthCode + 1) colorCode))
      | None \<Rightarrow>
          (if lengthCode = 0xff
           then rle_loop rest None (decompressed @ replicate 0x4000 colorCode)
           else if lengthCode AND 0x80 \<noteq> 0
           then rle_loop rest (Some (colorCode, lengthCode)) decompressed
           else rle_loop rest None (decompressed @ replicate (unat lengthCode + 1) colorCode)))"
| "rle_loop _ holder decompressed = (decompressed, holder)"

text \<open>
  Lines 313 to 321: a holder that is still pending is flushed, capped by the
  remaining capacity. \<^verbatim>\<open>remainingLen\<close> is negative when the output is already
  longer than expected; the \<^verbatim>\<open>for\<close> loop then does not run.
\<close>

definition flush_holder :: "nat \<Rightarrow> byte list \<times> (byte \<times> byte) option \<Rightarrow> byte list" where
  "flush_holder expectedLen st =
     (case st of
        (decompressed, None) \<Rightarrow> decompressed
      | (decompressed, Some (colorCode, lengthCode)) \<Rightarrow>
          (let remainingLen = int expectedLen - int (length decompressed);
               tailLength = min (int (held_length lengthCode)) remainingLen
           in decompressed @ replicate (nat tailLength) colorCode))"

text \<open>The run output before padding and truncation (lines 272 to 321).\<close>

definition rle_runs :: "byte list \<Rightarrow> nat \<Rightarrow> byte list" where
  "rle_runs compressedData expectedLen =
     flush_holder expectedLen (rle_loop compressedData None [])"

text \<open>Lines 323 to 329: pad with the transparent code, or cut the array.\<close>

definition pad_or_truncate :: "nat \<Rightarrow> byte list \<Rightarrow> byte list" where
  "pad_or_truncate expectedLen decompressed =
     (let padded = decompressed @ replicate (expectedLen - length decompressed) 0x62
      in if length padded > expectedLen then take expectedLen padded else padded)"

definition decodeRLE :: "byte list \<Rightarrow> nat \<Rightarrow> nat \<Rightarrow> byte list" where
  "decodeRLE compressedData width height =
     (let expectedLen = width * height
      in pad_or_truncate expectedLen (rle_runs compressedData expectedLen))"

subsection \<open>Numbers, strings, errors and diagnostics\<close>

text \<open>
  An address is a JavaScript \<^verbatim>\<open>number\<close> that comes out of \<^verbatim>\<open>parseInt\<close> or
  \<^verbatim>\<open>readU32LE\<close>: an integer, or \<^verbatim>\<open>NaN\<close> where the text was not a number.
  Every comparison with \<^verbatim>\<open>NaN\<close> is false.
\<close>

datatype jsnum = NaN | Num int

text \<open>A JavaScript string is its sequence of UTF-16 code units.\<close>

type_synonym jsstring = "nat list"

definition ascii :: "string \<Rightarrow> jsstring" where
  "ascii s = map of_char s"

text \<open>Every \<^verbatim>\<open>throw new Error(...)\<close> of the file is a constructor, with the values its message shows.\<close>

datatype error =
    SeekOutOfBounds jsnum nat
  | SeekEndOutOfBounds int nat
  | ReadU32OutOfBounds jsnum nat
  | InvalidReadLength int
  | ReadBytesOutOfBounds jsnum int nat
  | EmptyFile
  | FileTooSmall nat
  | HtmlInsteadOfNote
  | InvalidSignature jsstring

text \<open>Every \<^verbatim>\<open>console.warn\<close> of the modelled functions, in the order they are logged.\<close>

datatype warning =
    InvalidMetadataAddress jsnum nat
  | InvalidBlockLength nat jsnum nat
  | UnknownLayerProtocol jsstring

subsection \<open>The reader: \<^verbatim>\<open>class BinaryReader\<close>\<close>

record BinaryReader =
  data :: "byte list"
  pos :: jsnum

definition checkBounds :: "BinaryReader \<Rightarrow> jsnum \<Rightarrow> int \<Rightarrow> bool" where
  "checkBounds reader p sz =
     (case p of
        NaN \<Rightarrow> False
      | Num n \<Rightarrow> n \<ge> 0 \<and> n + sz \<le> int (length (data reader)))"

text \<open>\<^verbatim>\<open>seek\<close> lets \<^verbatim>\<open>NaN\<close> through: both of its comparisons are false.\<close>

definition seek :: "BinaryReader \<Rightarrow> jsnum \<Rightarrow> error + BinaryReader" where
  "seek reader p =
     (case p of
        NaN \<Rightarrow> Inr (reader\<lparr>pos := NaN\<rparr>)
      | Num n \<Rightarrow>
          if n < 0 \<or> n > int (length (data reader))
          then Inl (SeekOutOfBounds p (length (data reader)))
          else Inr (reader\<lparr>pos := Num n\<rparr>))"

definition seekEnd :: "BinaryReader \<Rightarrow> int \<Rightarrow> error + BinaryReader" where
  "seekEnd reader offset =
     (let newPos = int (length (data reader)) + offset
      in if newPos < 0 \<or> newPos > int (length (data reader))
         then Inl (SeekEndOutOfBounds offset (length (data reader)))
         else Inr (reader\<lparr>pos := Num newPos\<rparr>))"

text \<open>\<^verbatim>\<open>DataView.getUint32(pos, true)\<close>: four bytes, least significant first.\<close>

definition getUint32 :: "byte list \<Rightarrow> nat \<Rightarrow> nat" where
  "getUint32 bytes p =
     unat (bytes ! p) + 256 * unat (bytes ! (p + 1)) + 65536 * unat (bytes ! (p + 2))
       + 16777216 * unat (bytes ! (p + 3))"

definition readU32LE :: "BinaryReader \<Rightarrow> error + (nat \<times> BinaryReader)" where
  "readU32LE reader =
     (case pos reader of
        NaN \<Rightarrow> Inl (ReadU32OutOfBounds NaN (length (data reader)))
      | Num n \<Rightarrow>
          if \<not> checkBounds reader (Num n) 4
          then Inl (ReadU32OutOfBounds (Num n) (length (data reader)))
          else Inr (getUint32 (data reader) (nat n), reader\<lparr>pos := Num (n + 4)\<rparr>))"

definition readBytes :: "BinaryReader \<Rightarrow> int \<Rightarrow> error + (byte list \<times> BinaryReader)" where
  "readBytes reader len =
     (if len < 0 then Inl (InvalidReadLength len)
      else case pos reader of
        NaN \<Rightarrow> Inl (ReadBytesOutOfBounds NaN len (length (data reader)))
      | Num n \<Rightarrow>
          if \<not> checkBounds reader (Num n) len
          then Inl (ReadBytesOutOfBounds (Num n) len (length (data reader)))
          else Inr (take (nat len) (drop (nat n) (data reader)), reader\<lparr>pos := Num (n + len)\<rparr>))"

subsection \<open>Text decoding: \<^verbatim>\<open>new TextDecoder().decode(bytes)\<close>\<close>

text \<open>
  \<^verbatim>\<open>TextDecoder\<close> is the platform's. It is modelled after the UTF-8 decoder of the
  Encoding Standard, in replacement mode: the decoder is either between characters or
  inside a multi-byte sequence (code point so far, bytes still needed, bounds for the
  next byte); a byte outside the bounds ends the sequence with \<open>U+FFFD\<close> and is read
  again as a first byte; a sequence cut by the end of the input gives \<open>U+FFFD\<close>.
  Bytes are their numbers; \<open>b mod 64\<close> is \<^verbatim>\<open>b & 0x3F\<close>, and so on.
\<close>

datatype utf8_state = Idle | Continuation nat nat nat nat

definition utf8_lead :: "nat \<Rightarrow> utf8_state \<times> nat list" where
  "utf8_lead b =
     (if b \<le> 0x7F then (Idle, [b])
      else if 0xC2 \<le> b \<and> b \<le> 0xDF then (Continuation (b mod 32) 1 0x80 0xBF, [])
      else if 0xE0 \<le> b \<and> b \<le> 0xEF
      then (Continuation (b mod 16) 2 (if b = 0xE0 then 0xA0 else 0x80)
              (if b = 0xED then 0x9F else 0xBF), [])
      else if 0xF0 \<le> b \<and> b \<le> 0xF4
      then (Continuation (b mod 8) 3 (if b = 0xF0 then 0x90 else 0x80)
              (if b = 0xF4 then 0x8F else 0xBF), [])
      else (Idle, [0xFFFD]))"

definition utf8_step :: "utf8_state \<Rightarrow> nat \<Rightarrow> utf8_state \<times> nat list" where
  "utf8_step st b =
     (case st of
        Idle \<Rightarrow> utf8_lead b
      | Continuation cp needed lo hi \<Rightarrow>
          if b < lo \<or> hi < b
          then (case utf8_lead b of (st', out) \<Rightarrow> (st', 0xFFFD # out))
          else if needed = 1 then (Idle, [cp * 64 + b mod 64])
          else (Continuation (cp * 64 + b mod 64) (needed - 1) 0x80 0xBF, []))"

fun utf8_run :: "utf8_state \<Rightarrow> nat list \<Rightarrow> nat list" where
  "utf8_run st [] = (case st of Idle \<Rightarrow> [] | Continuation cp needed lo hi \<Rightarrow> [0xFFFD])"
| "utf8_run st (b # bs) = (case utf8_step st b of (st', out) \<Rightarrow> out @ utf8_run st' bs)"

text \<open>A code point as UTF-16 code units: itself, or a surrogate pair.\<close>

definition utf16_units :: "nat \<Rightarrow> nat list" where
  "utf16_units cp =
     (if cp < 0x10000 then [cp]
      else [0xD800 + (cp - 0x10000) div 0x400, 0xDC00 + (cp - 0x10000) mod 0x400])"

text \<open>
  The decoder is created without options, so \<^verbatim>\<open>ignoreBOM\<close> is false: a byte-order
  mark \<open>U+FEFF\<close> at the start of the text is dropped from the result.
\<close>

definition drop_bom :: "nat list \<Rightarrow> nat list" where
  "drop_bom cps = (case cps of [] \<Rightarrow> [] | c # rest \<Rightarrow> if c = 0xFEFF then rest else cps)"

definition text_decode :: "byte list \<Rightarrow> jsstring" where
  "text_decode bytes = concat (map utf16_units (drop_bom (utf8_run Idle (map unat bytes))))"

definition readString :: "BinaryReader \<Rightarrow> int \<Rightarrow> error + (jsstring \<times> BinaryReader)" where
  "readString reader len =
     (case readBytes reader len of
        Inl e \<Rightarrow> Inl e
      | Inr (bytes, reader') \<Rightarrow> Inr (text_decode bytes, reader'))"

subsection \<open>Validation: \<^verbatim>\<open>getSignature\<close>, \<^verbatim>\<open>validateNoteFile\<close>\<close>

definition VALID_SIGNATURE_PREFIXES :: "jsstring list" where
  "VALID_SIGNATURE_PREFIXES =
     [ascii ''noteSN_FILE_VER_'', ascii ''SN_FILE_VER_'', ascii ''SN_FILE_ASA_'']"

definition MIN_NOTE_FILE_SIZE :: nat where
  "MIN_NOTE_FILE_SIZE = 100"

definition getSignature :: "BinaryReader \<Rightarrow> error + (jsstring \<times> BinaryReader)" where
  "getSignature reader =
     (case seek reader (Num 4) of
        Inl e \<Rightarrow> Inl e
      | Inr reader' \<Rightarrow> readString reader' 20)"

text \<open>
  \<^verbatim>\<open>toLowerCase\<close>, on the letters A to Z. The two characters outside ASCII whose
  lower case holds an ASCII letter give \<^verbatim>\<open>i\<close> and \<^verbatim>\<open>k\<close>, which the two texts searched
  for below do not contain, so the searches answer the same.
\<close>

definition toLowerCase :: "jsstring \<Rightarrow> jsstring" where
  "toLowerCase s = map (\<lambda>c. if 0x41 \<le> c \<and> c \<le> 0x5A then c + 0x20 else c) s"

text \<open>
  \<^verbatim>\<open>validateNoteFile\<close> returns nothing; the model returns the reader as the calls
  leave it. \<^verbatim>\<open>startsWith\<close> is \<open>prefix\<close>, \<^verbatim>\<open>includes\<close> is \<open>sublist\<close>.
\<close>

definition validateNoteFile :: "BinaryReader \<Rightarrow> error + BinaryReader" where
  "validateNoteFile reader =
     (if length (data reader) = 0 then Inl EmptyFile
      else if length (data reader) < MIN_NOTE_FILE_SIZE
      then Inl (FileTooSmall (length (data reader)))
      else
        (case getSignature reader of
           Inl e \<Rightarrow> Inl e
         | Inr (signature, reader1) \<Rightarrow>
             if list_ex (\<lambda>p. prefix p signature) VALID_SIGNATURE_PREFIXES
             then Inr reader1
             else
               (case seek reader1 (Num 0) of
                  Inl e \<Rightarrow> Inl e
                | Inr reader2 \<Rightarrow>
                    (case readBytes reader2 (min 50 (int (length (data reader2)))) of
                       Inl e \<Rightarrow> Inl e
                     | Inr (bytes, reader3) \<Rightarrow>
                         (let firstBytes = text_decode bytes
                          in if sublist (ascii ''<!doctype'') (toLowerCase firstBytes)
                                \<or> sublist (ascii ''<html'') (toLowerCase firstBytes)
                             then Inl HtmlInsteadOfNote
                             else Inl (InvalidSignature (take 20 signature)))))))"

subsection \<open>Metadata records: \<^verbatim>\<open>parseMetadataBlock\<close>\<close>

text \<open>
  The comparisons and the subtraction of JavaScript numbers: false, respectively
  \<^verbatim>\<open>NaN\<close>, as soon as an operand is \<^verbatim>\<open>NaN\<close>.
\<close>

definition js_lt :: "jsnum \<Rightarrow> jsnum \<Rightarrow> bool" where
  "js_lt a b = (case (a, b) of (Num x, Num y) \<Rightarrow> x < y | _ \<Rightarrow> False)"

definition js_gt :: "jsnum \<Rightarrow> jsnum \<Rightarrow> bool" where
  "js_gt a b = (case (a, b) of (Num x, Num y) \<Rightarrow> x > y | _ \<Rightarrow> False)"

definition js_sub :: "jsnum \<Rightarrow> jsnum \<Rightarrow> jsnum" where
  "js_sub a b = (case (a, b) of (Num x, Num y) \<Rightarrow> Num (x - y) | _ \<Rightarrow> NaN)"

text \<open>
  The matches of \<^verbatim>\<open>/<([^:]+?):([^>]*?)>/g\<close>, from left to right, as \<^verbatim>\<open>exec\<close> finds
  them. After a \<^verbatim>\<open><\<close> the key runs up to the first colon and must not be empty, the
  value runs from there up to the first \<^verbatim>\<open>>\<close>; an empty key makes the search go on
  behind that \<^verbatim>\<open><\<close>. A key or a value that the end of the text cuts is no match, and
  then no later one exists either.
\<close>

datatype scan = Searching | InKey jsstring | InValue jsstring jsstring

fun metadata_scan :: "scan \<Rightarrow> jsstring \<Rightarrow> (jsstring \<times> jsstring) list" where
  "metadata_scan st [] = []"
| "metadata_scan Searching (c # cs) =
     (if c = 0x3C then metadata_scan (InKey []) cs else metadata_scan Searching cs)"
| "metadata_scan (InKey k) (c # cs) =
     (if c \<noteq> 0x3A then metadata_scan (InKey (k @ [c])) cs
      else if k = [] then metadata_scan Searching cs
      else metadata_scan (InValue k []) cs)"
| "metadata_scan (InValue k v) (c # cs) =
     (if c \<noteq> 0x3E then metadata_scan (InValue k (v @ [c])) cs
      else (k, v) # metadata_scan Searching cs)"

text \<open>
  A \<^verbatim>\<open>Map\<close> is the list of its entries in insertion order; \<^verbatim>\<open>set\<close> replaces the
  value of a key that is present and appends a new key.
\<close>

type_synonym metadata = "(jsstring \<times> jsstring) list"

definition metadata_of :: "jsstring \<Rightarrow> metadata" where
  "metadata_of content = fold (\<lambda>(k, v) m. AList.update k v m) (metadata_scan Searching content) []"

text \<open>
  \<^verbatim>\<open>parseMetadataBlock\<close>: the record, the reader as the calls leave it and the
  diagnostics logged, or the error thrown.
\<close>

definition parseMetadataBlock :: "BinaryReader \<Rightarrow> jsnum
    \<Rightarrow> error + (metadata \<times> BinaryReader \<times> warning list)" where
  "parseMetadataBlock reader address =
     (if address = Num 0 then Inr ([], reader, [])
      else if js_lt address (Num 0) \<or> js_gt address (Num (int (length (data reader)) - 4))
      then Inr ([], reader, [InvalidMetadataAddress address (length (data reader))])
      else
        (case seek reader address of
           Inl e \<Rightarrow> Inl e
         | Inr reader1 \<Rightarrow>
             (case readU32LE reader1 of
                Inl e \<Rightarrow> Inl e
              | Inr (blockLen, reader2) \<Rightarrow>
                  if blockLen \<le> 0
                     \<or> js_gt (Num (int blockLen))
                          (js_sub (js_sub (Num (int (length (data reader2)))) address) (Num 4))
                  then Inr ([], reader2,
                            [InvalidBlockLength blockLen address (length (data reader2))])
                  else
                    (case readString reader2 (int blockLen) of
                       Inl e \<Rightarrow> Inl e
                     | Inr (content, reader3) \<Rightarrow> Inr (metadata_of content, reader3, [])))))"

subsection \<open>Colors and compositing: \<^verbatim>\<open>toRGBA\<close>, \<^verbatim>\<open>renderPage\<close>\<close>

definition toRGBA :: "byte \<Rightarrow> byte \<times> byte \<times> byte \<times> byte" where
  "toRGBA pixelByte =
     (if pixelByte = 0x61 then (0, 0, 0, 255)
      else if pixelByte = 0x65 then (255, 255, 255, 255)
      else if pixelByte = 0x62 then (0, 0, 0, 0)
      else if pixelByte = 0x63 \<or> pixelByte = 0x9d \<or> pixelByte = 0x9e then (0x9d, 0x9d, 0x9d, 255)
      else if pixelByte = 0x64 \<or> pixelByte = 0xc9 \<or> pixelByte = 0xca then (0xc9, 0xc9, 0xc9, 255)
      else (pixelByte, pixelByte, pixelByte, 255))"

text \<open>
  \<^verbatim>\<open>Math.round(src * alpha + dst * invAlpha)\<close> with \<^verbatim>\<open>alpha = a / 255\<close>. The exact
  value is \<open>(src * a + dst * (255 - a)) / 255\<close>, which is never half-way between two
  integers (twice the numerator is even, 255 times an odd number is odd) and stays
  at least \<open>1 / 510\<close> away from it, far more than the rounding error of the double
  arithmetic: rounding the exact value to the nearest integer gives what the source
  stores.
\<close>

definition blend :: "byte \<Rightarrow> byte \<Rightarrow> byte \<Rightarrow> byte" where
  "blend src a dst =
     of_nat ((2 * (unat src * unat a + unat dst * (255 - unat a)) + 255) div 510)"

text \<open>
  Lines 425 to 439, repeated as lines 456 to 469: one pixel written to the canvas.
  A store past the end of a typed array is ignored, as \<open>list_update\<close> is.
\<close>

definition composite_pixel :: "byte list \<Rightarrow> nat \<Rightarrow> byte \<Rightarrow> byte \<Rightarrow> byte \<Rightarrow> byte \<Rightarrow> byte list" where
  "composite_pixel canvas idx r g b a =
     (if a = 255
      then canvas[idx := r, idx + 1 := g, idx + 2 := b, idx + 3 := 255]
      else canvas[idx := blend r a (canvas ! idx),
                  idx + 1 := blend g a (canvas ! (idx + 1)),
                  idx + 2 := blend b a (canvas ! (idx + 2))])"

text \<open>
  The loop of lines 421 to 440. \<^verbatim>\<open>layerPixels\<close> is the result of \<^verbatim>\<open>decodeRLE\<close> and
  has \<open>width * height\<close> entries; past its end the source would read \<^verbatim>\<open>undefined\<close>,
  for which \<^verbatim>\<open>toRGBA\<close> answers alpha 255 and the stored channels become 0.
\<close>

definition composite_rle_step :: "byte list \<Rightarrow> nat \<Rightarrow> byte list \<Rightarrow> byte list" where
  "composite_rle_step layerPixels i canvas =
     (case (if i < length layerPixels then toRGBA (layerPixels ! i) else (0, 0, 0, 255)) of
        (r, g, b, a) \<Rightarrow>
          if a = 0 then canvas else composite_pixel canvas (i * 4) r g b a)"

definition composite_rle :: "byte list \<Rightarrow> nat \<Rightarrow> byte list \<Rightarrow> byte list" where
  "composite_rle layerPixels n canvas = fold (composite_rle_step layerPixels) [0..<n] canvas"

text \<open>
  The loop of lines 447 to 470. Where the decoded image is too short, the alpha read
  is \<^verbatim>\<open>undefined\<close>, neither 0 nor 255: the blend computes \<^verbatim>\<open>NaN\<close> and the three
  channels are stored as 0.
\<close>

definition composite_png_step :: "byte list \<Rightarrow> nat \<Rightarrow> byte list \<Rightarrow> byte list" where
  "composite_png_step layerPixels i canvas =
     (let idx = i * 4
      in if idx + 3 < length layerPixels
         then (let a = layerPixels ! (idx + 3)
               in if a = 0 then canvas
                  else composite_pixel canvas idx (layerPixels ! idx) (layerPixels ! (idx + 1))
                         (layerPixels ! (idx + 2)) a)
         else canvas[idx := 0, idx + 1 := 0, idx + 2 := 0])"

definition composite_png :: "byte list \<Rightarrow> nat \<Rightarrow> byte list \<Rightarrow> byte list" where
  "composite_png layerPixels n canvas = fold (composite_png_step layerPixels) [0..<n] canvas"

text \<open>Lines 400 to 406: the canvas starts white and opaque.\<close>

definition white_canvas :: "nat \<Rightarrow> nat \<Rightarrow> byte list" where
  "white_canvas width height =
     fold (\<lambda>i canvas. canvas[i * 4 := 255, i * 4 + 1 := 255, i * 4 + 2 := 255, i * 4 + 3 := 255])
       [0..<width * height] (replicate (width * height * 4) 0)"

record Layer =
  key :: jsstring
  protocol :: jsstring
  bitmapAddress :: jsnum

record Page =
  addr :: jsnum
  layers :: "Layer list"

text \<open>Lines 411 to 413: the length-prefixed bitmap block of a layer.\<close>

definition read_block :: "BinaryReader \<Rightarrow> jsnum \<Rightarrow> error + (byte list \<times> BinaryReader)" where
  "read_block reader address =
     (case seek reader address of
        Inl e \<Rightarrow> Inl e
      | Inr reader1 \<Rightarrow>
          (case readU32LE reader1 of
             Inl e \<Rightarrow> Inl e
           | Inr (blockLen, reader2) \<Rightarrow> readBytes reader2 (int blockLen)))"

text \<open>
  \<^verbatim>\<open>decodePNG\<close> hands the bytes to the browser (\<^verbatim>\<open>createImageBitmap\<close>, a canvas
  element) and answers the RGBA pixels or \<^verbatim>\<open>null\<close>; it is a parameter here.
\<close>

type_synonym png_decoder = "byte list \<Rightarrow> nat \<Rightarrow> nat \<Rightarrow> byte list option"

text \<open>
  The body of the loop over the layers (lines 409 to 475), on the reader, the canvas
  and the diagnostics logged so far. The block is read before the protocol is looked at.
\<close>

definition render_layer :: "png_decoder \<Rightarrow> nat \<Rightarrow> nat \<Rightarrow> Layer
    \<Rightarrow> BinaryReader \<times> byte list \<times> warning list
    \<Rightarrow> error + (BinaryReader \<times> byte list \<times> warning list)" where
  "render_layer decodePNG width height layer st =
     (case st of (reader, canvas, warnings) \<Rightarrow>
        if bitmapAddress layer = Num 0 then Inr (reader, canvas, warnings)
        else
          (case read_block reader (bitmapAddress layer) of
             Inl e \<Rightarrow> Inl e
           | Inr (compressedData, reader') \<Rightarrow>
               if protocol layer = ascii ''RATTA_RLE''
               then Inr (reader',
                         composite_rle (decodeRLE compressedData width height) (width * height) canvas,
                         warnings)
               else if protocol layer = ascii ''PNG''
               then (case decodePNG compressedData width height of
                       None \<Rightarrow> Inr (reader', canvas, warnings)
                     | Some layerPixels \<Rightarrow>
                         Inr (reader', composite_png layerPixels (width * height) canvas, warnings))
               else Inr (reader', canvas, warnings @ [UnknownLayerProtocol (protocol layer)])))"

fun render_layers :: "png_decoder \<Rightarrow> nat \<Rightarrow> nat \<Rightarrow> Layer list
    \<Rightarrow> BinaryReader \<times> byte list \<times> warning list
    \<Rightarrow> error + (BinaryReader \<times> byte list \<times> warning list)" where
  "render_layers decodePNG width height [] st = Inr st"
| "render_layers decodePNG width height (layer # rest) st =
     (case render_layer decodePNG width height layer st of
        Inl e \<Rightarrow> Inl e
      | Inr st' \<Rightarrow> render_layers decodePNG width height rest st')"

text \<open>
  \<^verbatim>\<open>renderPage\<close>: the canvas it returns, with the reader as it leaves it and the
  diagnostics it logged, or the error it throws.
\<close>

definition renderPage :: "png_decoder \<Rightarrow> BinaryReader \<Rightarrow> Page \<Rightarrow> nat \<Rightarrow> nat
    \<Rightarrow> error + (byte list \<times> BinaryReader \<times> warning list)" where
  "renderPage decodePNG reader page width height =
     (case render_layers decodePNG width height (layers page)
             (reader, white_canvas width height, []) of
        Inl e \<Rightarrow> Inl e
      | Inr (reader', canvas, warnings) \<Rightarrow> Inr (canvas, reader', warnings))"

text \<open>
  The colors of a run-length layer as an RGBA raster, four bytes for each pixel code:
  what \<^verbatim>\<open>toRGBA\<close> answers along the layer.
\<close>

definition rle_layer_rgba :: "byte list \<Rightarrow> byte list" where
  "rle_layer_rgba layerPixels =
     concat (map (\<lambda>p. case toRGBA p of (r, g, b, a) \<Rightarrow> [r, g, b, a]) layerPixels)"

text \<open>A decoder that always answers \<^verbatim>\<open>null\<close>, as \<^verbatim>\<open>decodePNG\<close> does without a 2d context.\<close>

definition png_unavailable :: png_decoder where
  "png_unavailable compressedData width height = None"

subsection \<open>The PDF emitter: \<^verbatim>\<open>buildPDF\<close>\<close>

text \<open>
  \<^verbatim>\<open>TextEncoder.encode\<close>, the platform's UTF-8 encoder, on UTF-16 code units: a
  surrogate pair is one code point of four bytes, a lone surrogate is encoded as
  \<open>U+FFFD\<close>.
\<close>

fun utf8_encode :: "jsstring \<Rightarrow> byte list" where
  "utf8_encode [] = []"
| "utf8_encode (u # us) =
     (if u < 0x80 then of_nat u # utf8_encode us
      else if u < 0x800
      then of_nat (0xC0 + u div 64) # of_nat (0x80 + u mod 64) # utf8_encode us
      else if 0xD800 \<le> u \<and> u < 0xDC00
      then (case us of
              [] \<Rightarrow> [0xEF, 0xBF, 0xBD]
            | l # us' \<Rightarrow>
                if 0xDC00 \<le> l \<and> l < 0xE000
                then (let cp = 0x10000 + (u - 0xD800) * 0x400 + (l - 0xDC00)
                      in of_nat (0xF0 + cp div 262144) # of_nat (0x80 + cp div 4096 mod 64) #
                         of_nat (0x80 + cp div 64 mod 64) # of_nat (0x80 + cp mod 64) #
                         utf8_encode us')
                else 0xEF # 0xBF # 0xBD # utf8_encode us)
      else if 0xDC00 \<le> u \<and> u < 0xE000 then 0xEF # 0xBF # 0xBD # utf8_encode us
      else of_nat (0xE0 + u div 4096) # of_nat (0x80 + u div 64 mod 64) #
           of_nat (0x80 + u mod 64) # utf8_encode us)"

text \<open>
  A number in a template literal: the decimal digits of a natural number (all numbers
  printed by \<^verbatim>\<open>buildPDF\<close> are object numbers, lengths, dimensions and offsets).
\<close>

fun show_nat :: "nat \<Rightarrow> jsstring" where
  "show_nat n = (if n < 10 then [48 + n] else show_nat (n div 10) @ [48 + n mod 10])"

declare show_nat.simps [simp del]

definition padStart :: "nat \<Rightarrow> nat \<Rightarrow> jsstring \<Rightarrow> jsstring" where
  "padStart targetLength c s = replicate (targetLength - length s) c @ s"

fun join :: "jsstring \<Rightarrow> jsstring list \<Rightarrow> jsstring" where
  "join sep [] = []"
| "join sep [x] = x"
| "join sep (x # y # ys) = x @ sep @ join sep (y # ys)"

text \<open>
  \<^verbatim>\<open>Math.round(pixels * 72 / DPI)\<close> with \<^verbatim>\<open>DPI = 150\<close>. The quotient is a multiple of
  \<open>1 / 25\<close> and never half-way between two integers, so the rounding of the double
  division is the rounding of the exact quotient to the nearest integer.
\<close>

definition DPI :: nat where
  "DPI = 150"

definition pdf_points :: "nat \<Rightarrow> nat" where
  "pdf_points pixels = (2 * (pixels * 72) + DPI) div (2 * DPI)"

text \<open>The three variables that \<^verbatim>\<open>write\<close> and the \<^verbatim>\<open>push\<close> calls of \<^verbatim>\<open>buildPDF\<close> update.\<close>

record pdf_writer =
  chunks :: "byte list list"
  xrefOffsets :: "nat list"
  byteOffset :: nat

text \<open>\<^verbatim>\<open>write\<close> on a byte array and on a string.\<close>

definition write_bytes :: "byte list \<Rightarrow> pdf_writer \<Rightarrow> pdf_writer" where
  "write_bytes bytes w = w\<lparr>chunks := chunks w @ [bytes], byteOffset := byteOffset w + length bytes\<rparr>"

definition write_string :: "jsstring \<Rightarrow> pdf_writer \<Rightarrow> pdf_writer" where
  "write_string s w = write_bytes (utf8_encode s) w"

text \<open>\<^verbatim>\<open>xrefOffsets.push(byteOffset)\<close>.\<close>

definition push_offset :: "pdf_writer \<Rightarrow> pdf_writer" where
  "push_offset w = w\<lparr>xrefOffsets := xrefOffsets w @ [byteOffset w]\<rparr>"

text \<open>\<^verbatim>\<open>pako.deflate\<close> is a library function; it is a parameter here.\<close>

type_synonym deflater = "byte list \<Rightarrow> byte list"

text \<open>Lines 521 to 531: the header, the catalog and the page tree.\<close>

definition write_preamble :: "nat \<Rightarrow> pdf_writer" where
  "write_preamble pageCount =
     (let w = \<lparr>chunks = [], xrefOffsets = [], byteOffset = 0\<rparr>;
          w = write_string (ascii ''%PDF-1.7\<newline>%'' @ [0xE2, 0xE3, 0xCF, 0xD3] @ ascii ''\<newline>'') w;
          w = push_offset w;
          w = write_string (ascii ''1 0 obj\<newline><< /Type /Catalog /Pages 2 0 R >>\<newline>endobj\<newline>'') w;
          w = push_offset w;
          pageRefs = join (ascii '' '')
                       (map (\<lambda>i. show_nat (i * 3 + 3) @ ascii '' 0 R'') [0..<pageCount])
      in write_string
           (ascii ''2 0 obj\<newline><< /Type /Pages /Kids [ '' @ pageRefs @ ascii '' ] /Count '' @
            show_nat pageCount @ ascii '' >>\<newline>endobj\<newline>'') w)"

text \<open>Lines 535 to 555: the three objects of page \<open>i\<close>.\<close>

definition write_page :: "deflater \<Rightarrow> nat \<Rightarrow> nat \<Rightarrow> nat \<Rightarrow> nat \<Rightarrow> nat \<Rightarrow> byte list
    \<Rightarrow> pdf_writer \<Rightarrow> pdf_writer" where
  "write_page deflate pdfWidth pdfHeight width height i pageImage w0 =
     (let pageObjId = i * 3 + 3;
          contentsObjId = i * 3 + 4;
          imageObjId = i * 3 + 5;
          compressedPixels = deflate pageImage;
          w = push_offset w0;
          w = write_string
                (show_nat pageObjId @
                 ascii '' 0 obj\<newline><< /Type /Page\<newline>   /Parent 2 0 R\<newline>   /MediaBox [0 0 '' @
                 show_nat pdfWidth @ ascii '' '' @ show_nat pdfHeight @
                 ascii '']\<newline>   /Contents '' @ show_nat contentsObjId @
                 ascii '' 0 R\<newline>   /Resources << /XObject << /Im1 '' @ show_nat imageObjId @
                 ascii '' 0 R >> >>\<newline>>>\<newline>endobj\<newline>'') w;
          contents = ascii ''q\<newline>'' @ show_nat pdfWidth @ ascii '' 0 0 '' @ show_nat pdfHeight @
                     ascii '' 0 0 cm\<newline>/Im1 Do\<newline>Q\<newline>'';
          w = push_offset w;
          w = write_string
                (show_nat contentsObjId @ ascii '' 0 obj\<newline><< /Length '' @
                 show_nat (length contents) @ ascii '' >>\<newline>stream\<newline>'' @ contents @
                 ascii ''\<newline>endstream\<newline>endobj\<newline>'') w;
          w = push_offset w;
          w = write_string
                (show_nat imageObjId @
                 ascii '' 0 obj\<newline><< /Type /XObject\<newline>   /Subtype /Image\<newline>   /Width '' @
                 show_nat width @ ascii ''\<newline>   /Height '' @ show_nat height @
                 ascii ''\<newline>   /ColorSpace /DeviceRGB\<newline>   /BitsPerComponent 8\<newline>   /Filter /FlateDecode\<newline>   /Length '' @
                 show_nat (length compressedPixels) @ ascii '' >>\<newline>stream\<newline>'') w;
          w = write_bytes compressedPixels w
      in write_string (ascii ''\<newline>endstream\<newline>endobj\<newline>'') w)"

text \<open>The loop of lines 534 to 556, from page \<open>i\<close> on.\<close>

fun write_pages :: "deflater \<Rightarrow> nat \<Rightarrow> nat \<Rightarrow> nat \<Rightarrow> nat \<Rightarrow> nat \<Rightarrow> byte list list
    \<Rightarrow> pdf_writer \<Rightarrow> pdf_writer" where
  "write_pages deflate pdfWidth pdfHeight width height i [] w = w"
| "write_pages deflate pdfWidth pdfHeight width height i (pageImage # rest) w =
     write_pages deflate pdfWidth pdfHeight width height (i + 1) rest
       (write_page deflate pdfWidth pdfHeight width height i pageImage w)"

text \<open>Lines 518 to 556: the writer when all objects are written.\<close>

definition write_objects :: "deflater \<Rightarrow> byte list list \<Rightarrow> nat \<Rightarrow> nat \<Rightarrow> pdf_writer" where
  "write_objects deflate pageImages width height =
     write_pages deflate (pdf_points width) (pdf_points height) width height 0 pageImages
       (write_preamble (length pageImages))"

text \<open>Lines 559 to 572: the cross-reference table and the trailer.\<close>

definition write_xref_trailer :: "pdf_writer \<Rightarrow> pdf_writer" where
  "write_xref_trailer w0 =
     (let xrefStart = byteOffset w0;
          w = write_string (ascii ''xref\<newline>'') w0;
          w = write_string (ascii ''0 '' @ show_nat (length (xrefOffsets w) + 1) @ ascii ''\<newline>'') w;
          w = write_string (ascii ''0000000000 65535 f \<newline>'') w;
          w = fold (\<lambda>offset. write_string
                      (padStart 10 0x30 (show_nat offset) @ ascii '' 00000 n \<newline>''))
                (xrefOffsets w) w;
          w = write_string (ascii ''trailer\<newline>'') w;
          w = write_string (ascii ''<< /Size '' @ show_nat (length (xrefOffsets w) + 1) @
                            ascii '' /Root 1 0 R >>\<newline>'') w;
          w = write_string (ascii ''startxref\<newline>'') w;
          w = write_string (show_nat xrefStart @ ascii ''\<newline>'') w
      in write_string (ascii ''%%EOF\<newline>'') w)"

text \<open>Lines 575 to 583 copy the chunks one behind the other into the result.\<close>

definition buildPDF :: "deflater \<Rightarrow> byte list list \<Rightarrow> nat \<Rightarrow> nat \<Rightarrow> byte list" where
  "buildPDF deflate pageImages width height =
     concat (chunks (write_xref_trailer (write_objects deflate pageImages width height)))"

text \<open>
  The text of the cross-reference section and the trailer for a list of offsets, with
  the offset of the section itself: what a reader of the document finds there.
\<close>

definition xref_section :: "nat list \<Rightarrow> nat \<Rightarrow> jsstring" where
  "xref_section offsets xrefStart =
     ascii ''xref\<newline>0 '' @ show_nat (length offsets + 1) @ ascii ''\<newline>'' @
     ascii ''0000000000 65535 f \<newline>'' @
     concat (map (\<lambda>offset. padStart 10 0x30 (show_nat offset) @ ascii '' 00000 n \<newline>'') offsets) @
     ascii ''trailer\<newline><< /Size '' @ show_nat (length offsets + 1) @
     ascii '' /Root 1 0 R >>\<newline>startxref\<newline>'' @ show_nat xrefStart @ ascii ''\<newline>%%EOF\<newline>''"

text \<open>
  The declaration text \<^verbatim>\<open>N 0 obj\<close> of object \<open>N\<close> begins at a byte offset of a stream.
\<close>

definition object_at :: "byte list \<Rightarrow> nat \<Rightarrow> nat \<Rightarrow> bool" where
  "object_at stream N offset =
     prefix (map of_nat (show_nat N @ ascii '' 0 obj'')) (drop offset stream)"

text \<open>
  The bookkeeping of a writer is exact: \<^verbatim>\<open>byteOffset\<close> is the number of bytes written,
  and the \<open>k\<close>-th recorded offset is where the declaration of object \<open>k + 1\<close> begins.
\<close>

definition offsets_exact :: "pdf_writer \<Rightarrow> bool" where
  "offsets_exact w \<longleftrightarrow>
     byteOffset w = length (concat (chunks w)) \<and>
     (\<forall>k<length (xrefOffsets w). object_at (concat (chunks w)) (k + 1) (xrefOffsets w ! k))"

text \<open>A stand-in for the compressor that stores the bytes as they are.\<close>

definition stored :: deflater where
  "stored bytes = bytes"

text \<open>
  A buffer of 100 bytes whose signature field starts with the UTF-8 byte-order mark
  \<open>EF BB BF\<close>, followed by the bytes of \<^verbatim>\<open>SN_FILE_VER_\<close>.
\<close>

definition bom_signature_buffer :: "byte list" where
  "bom_signature_buffer =
     replicate 4 0 @ [0xEF, 0xBB, 0xBF] @
     [0x53, 0x4E, 0x5F, 0x46, 0x49, 0x4C, 0x45, 0x5F, 0x56, 0x45, 0x52, 0x5F] @ replicate 81 0"

section \<open>Properties of the run-length decoder\<close>

lemma held_length_0x85: "held_length 0x85 = 768"
  by (simp add: held_length_def)






lemma rle_loop_same_color:
  "rle_loop [0x61, 0x85, 0x61, 0x03] None [] = (replicate 772 0x61, None)"
  by (simp add: held_length_0x85)

lemma rle_loop_color_change:
  "rle_loop [0x61, 0x85, 0x65, 0x03] None [] = (replicate 768 0x61 @ replicate 4 0x65, None)"
  by (simp add: held_length_0x85)

text \<open>
  C2 (as amended). On the pairs \<open>(0x61, 0x85)\<close>, \<open>(0x61, 0x03)\<close> the first pair is held
  and the second resolves it with the same color: the run has
  \<open>1 + 3 + (((0x85 & 0x7F) + 1) << 7) = 1 + 3 + 768 = 772\<close> pixels of \<open>0x61\<close>, whatever
  the expected length, and the holder is empty again.
\<close>

theorem escape_same_color_772:
  "rle_runs [0x61, 0x85, 0x61, 0x03] expectedLen = replicate 772 0x61
   \<and> snd (rle_loop [0x61, 0x85, 0x61, 0x03] None []) = None
   \<and> 1 + unat (0x03 :: byte) + held_length 0x85 = 772"
  by (simp add: rle_runs_def flush_holder_def rle_loop_same_color held_length_0x85)

text \<open>C2 as stated fails: the run output is not 650 pixels long.\<close>

theorem escape_same_color_not_650:
  "rle_runs [0x61, 0x85, 0x61, 0x03] 650 \<noteq> replicate 650 0x61"
proof
  assume "rle_runs [0x61, 0x85, 0x61, 0x03] 650 = replicate 650 0x61"
  then have "length (rle_runs [0x61, 0x85, 0x61, 0x03] 650) = 650"
    by simp
  then show False
    by (simp add: rle_runs_def flush_holder_def held_length_0x85)
qed

text \<open>
  C3 (as amended). On the pairs \<open>(0x61, 0x85)\<close>, \<open>(0x65, 0x03)\<close> the held pair is flushed
  on the color change: the output is \<open>((0x85 & 0x7F) + 1) << 7 = 6 * 128 = 768\<close> pixels of
  \<open>0x61\<close> immediately followed by 4 pixels of \<open>0x65\<close>.
\<close>

theorem escape_color_change_768:
  "rle_runs [0x61, 0x85, 0x65, 0x03] expectedLen = replicate 768 0x61 @ replicate 4 0x65
   \<and> held_length 0x85 = 768"
  by (simp add: rle_runs_def flush_holder_def rle_loop_color_change held_length_0x85)

text \<open>C3 as stated fails: the output is not 640 pixels of \<open>0x61\<close> and then 4 of \<open>0x65\<close>.\<close>

theorem escape_color_change_not_640:
  "rle_runs [0x61, 0x85, 0x65, 0x03] 644 \<noteq> replicate 640 0x61 @ replicate 4 0x65"
proof
  assume "rle_runs [0x61, 0x85, 0x65, 0x03] 644 = replicate 640 0x61 @ replicate 4 0x65"
  then have "length (rle_runs [0x61, 0x85, 0x65, 0x03] 644) = 644"
    by simp
  then show False
    by (simp add: rle_runs_def flush_holder_def held_length_0x85)
qed

lemma rle_loop_snoc:
  "even (length xs) \<Longrightarrow> rle_loop (xs @ [b]) holder out = rle_loop xs holder out"
  by (induction xs holder out rule: rle_loop.induct) (simp_all split: option.splits)

text \<open>
  C9. On an input of odd length the last byte has no partner and the loop leaves
  at the \<^verbatim>\<open>break\<close>: the decoder returns what it returns on the input without
  that byte.
\<close>

theorem decodeRLE_odd_length:
  "odd (length compressedData) \<Longrightarrow>
   decodeRLE compressedData width height = decodeRLE (butlast compressedData) width height"
proof -
  assume odd: "odd (length compressedData)"
  then have ne: "compressedData \<noteq> []"
    by auto
  then have split: "compressedData = butlast compressedData @ [last compressedData]"
    by simp
  from odd ne have "even (length (butlast compressedData))"
    by simp
  then have "rle_loop (butlast compressedData @ [last compressedData]) None [] =
             rle_loop (butlast compressedData) None []"
    by (rule rle_loop_snoc)
  with split have "rle_loop compressedData None [] = rle_loop (butlast compressedData) None []"
    by simp
  then show ?thesis
    by (simp add: decodeRLE_def rle_runs_def)
qed

theorem decodeRLE_odd_length_witness:
  "odd (length [0x61, 0x01, 0x65 :: byte])
   \<and> decodeRLE [0x61, 0x01, 0x65] 2 2 = decodeRLE [0x61, 0x01] 2 2
   \<and> decodeRLE [0x61, 0x01, 0x65] 2 2 = [0x61, 0x61, 0x62, 0x62]"
proof -
  have "odd (length [0x61, 0x01, 0x65 :: byte])"
    by simp
  moreover from this have "decodeRLE [0x61, 0x01, 0x65] 2 2 = decodeRLE (butlast [0x61, 0x01, 0x65]) 2 2"
    by (rule decodeRLE_odd_length)
  moreover have "decodeRLE [0x61, 0x01] 2 2 = [0x61, 0x61, 0x62, 0x62]"
    by code_simp
  ultimately show ?thesis
    by simp
qed

section \<open>Properties of compositing and page rendering\<close>

lemma nth_update_if: "xs[i := x] ! j = (if i = j \<and> i < length xs then x else xs ! j)"
  by (cases "i < length xs") (simp_all add: nth_list_update list_update_beyond)

lemma fold_preserves:
  "P c \<Longrightarrow> (\<And>x c. x \<in> set xs \<Longrightarrow> P c \<Longrightarrow> P (f x c)) \<Longrightarrow> P (fold f xs c)"
  by (induction xs arbitrary: c) auto

lemma composite_pixel_length: "length (composite_pixel c idx r g b a) = length c"
  by (simp add: composite_pixel_def)

lemma alpha_slot_neq:
  "i * 4 \<noteq> j * 4 + (3::nat)" "Suc (i * 4) \<noteq> j * 4 + 3" "Suc (Suc (i * 4)) \<noteq> j * 4 + 3"
  by presburger+

lemma composite_pixel_alpha:
  assumes "\<forall>j<n. c ! (j * 4 + 3) = 255" and "j < n"
  shows "composite_pixel c (i * 4) r g b a ! (j * 4 + 3) = 255"
  using assms alpha_slot_neq [of i j]
  by (simp add: composite_pixel_def nth_update_if)

lemma composite_png_step_length: "length (composite_png_step L i c) = length c"
  by (simp add: composite_png_step_def Let_def composite_pixel_length)

lemma composite_rle_step_length: "length (composite_rle_step L i c) = length c"
  by (simp add: composite_rle_step_def composite_pixel_length split: prod.splits)

lemma composite_png_step_alpha:
  assumes "\<forall>j<n. c ! (j * 4 + 3) = 255" and "j < n"
  shows "composite_png_step L i c ! (j * 4 + 3) = 255"
  using assms alpha_slot_neq [of i j]
  by (simp add: composite_png_step_def Let_def composite_pixel_alpha [OF assms])

lemma composite_rle_step_alpha:
  assumes "\<forall>j<n. c ! (j * 4 + 3) = 255" and "j < n"
  shows "composite_rle_step L i c ! (j * 4 + 3) = 255"
  using assms
  by (simp add: composite_rle_step_def composite_pixel_alpha [OF assms] split: prod.splits)

lemma composite_png_opaque_canvas:
  assumes "length c = n * 4 \<and> (\<forall>j<n. c ! (j * 4 + 3) = 255)"
  shows "length (composite_png L m c) = n * 4 \<and> (\<forall>j<n. composite_png L m c ! (j * 4 + 3) = 255)"
  unfolding composite_png_def
  by (rule fold_preserves [where P = "\<lambda>c. length c = n * 4 \<and> (\<forall>j<n. c ! (j * 4 + 3) = 255)"])
     (use assms in \<open>auto simp: composite_png_step_length composite_png_step_alpha\<close>)

lemma composite_rle_opaque_canvas:
  assumes "length c = n * 4 \<and> (\<forall>j<n. c ! (j * 4 + 3) = 255)"
  shows "length (composite_rle L m c) = n * 4 \<and> (\<forall>j<n. composite_rle L m c ! (j * 4 + 3) = 255)"
  unfolding composite_rle_def
  by (rule fold_preserves [where P = "\<lambda>c. length c = n * 4 \<and> (\<forall>j<n. c ! (j * 4 + 3) = 255)"])
     (use assms in \<open>auto simp: composite_rle_step_length composite_rle_step_alpha\<close>)

lemma white_canvas_fill:
  "k \<le> n \<Longrightarrow>
   length (fold (\<lambda>i canvas. canvas[i * 4 := 255, i * 4 + 1 := 255, i * 4 + 2 := 255, i * 4 + 3 := 255])
     [0..<k] (replicate (n * 4) (0::byte))) = n * 4
   \<and> (\<forall>j<k * 4. fold (\<lambda>i canvas. canvas[i * 4 := 255, i * 4 + 1 := 255, i * 4 + 2 := 255, i * 4 + 3 := 255])
     [0..<k] (replicate (n * 4) (0::byte)) ! j = 255)"
proof (induction k)
  case 0
  then show ?case by simp
next
  case (Suc k)
  then show ?case
    by (simp add: nth_update_if)
qed

lemma white_canvas_eq: "white_canvas w h = replicate (w * h * 4) 255"
  by (rule nth_equalityI) (use white_canvas_fill [of "w * h" "w * h"] in \<open>auto simp: white_canvas_def\<close>)


lemma composite_png_step_opaque:
  assumes len: "length L = n * 4" "length c = n * 4" and k: "k < n"
    and a: "L ! (k * 4 + 3) = 255" and pre: "\<forall>j<k * 4. c ! j = L ! j"
  shows "\<forall>j<Suc k * 4. composite_png_step L k c ! j = L ! j"
proof (intro allI impI)
  fix j assume "j < Suc k * 4"
  then have "j < k * 4 \<or> j = k * 4 \<or> j = k * 4 + 1 \<or> j = k * 4 + 2 \<or> j = k * 4 + 3"
    by presburger
  then consider "j < k * 4" | "j = k * 4" | "j = k * 4 + 1" | "j = k * 4 + 2" | "j = k * 4 + 3"
    by blast
  then show "composite_png_step L k c ! j = L ! j"
  proof cases
    case 1
    then show ?thesis
      using len k a pre by (simp add: composite_png_step_def composite_pixel_def nth_update_if Let_def)
  next
    case 2
    then show ?thesis
      using len k a by (simp add: composite_png_step_def composite_pixel_def nth_update_if Let_def)
  next
    case 3
    then show ?thesis
      using len k a by (simp add: composite_png_step_def composite_pixel_def nth_update_if Let_def)
  next
    case 4
    then show ?thesis
      using len k a by (simp add: composite_png_step_def composite_pixel_def nth_update_if Let_def)
  next
    case 5
    then show ?thesis
      using len k a by (simp add: composite_png_step_def composite_pixel_def nth_update_if Let_def)
  qed
qed

lemma composite_png_opaque_prefix:
  assumes len: "length L = n * 4" "length c = n * 4"
    and a: "\<forall>i<n. L ! (i * 4 + 3) = 255"
  shows "k \<le> n \<Longrightarrow> length (composite_png L k c) = n * 4 \<and> (\<forall>j<k * 4. composite_png L k c ! j = L ! j)"
proof (induction k)
  case 0
  then show ?case using len by (simp add: composite_png_def)
next
  case (Suc k)
  then have k: "k < n" and ih: "length (composite_png L k c) = n * 4"
      "\<forall>j<k * 4. composite_png L k c ! j = L ! j"
    by simp_all
  have step: "composite_png L (Suc k) c = composite_png_step L k (composite_png L k c)"
    by (simp add: composite_png_def)
  from a k have "L ! (k * 4 + 3) = 255" by simp
  from composite_png_step_opaque [OF len(1) ih(1) k this ih(2)] ih(1)
  show ?case
    by (simp only: step composite_png_step_length)
qed

lemma composite_png_opaque:
  assumes "length L = n * 4" "length c = n * 4" "\<forall>i<n. L ! (i * 4 + 3) = 255"
  shows "composite_png L n c = L"
  using composite_png_opaque_prefix [OF assms, of n] assms(1)
  by (intro nth_equalityI) simp_all

lemma length_rle_layer_rgba: "length (rle_layer_rgba L) = length L * 4"
  by (induction L) (simp_all add: rle_layer_rgba_def split: prod.splits)

lemma rle_layer_rgba_nth:
  "i < length L \<Longrightarrow> t < 4 \<Longrightarrow>
   rle_layer_rgba L ! (i * 4 + t) = (case toRGBA (L ! i) of (r, g, b, a) \<Rightarrow> [r, g, b, a]) ! t"
proof (induction L arbitrary: i)
  case Nil
  then show ?case by simp
next
  case (Cons p L)
  have unfold: "rle_layer_rgba (p # L) = (case toRGBA p of (r, g, b, a) \<Rightarrow> [r, g, b, a]) @ rle_layer_rgba L"
    by (simp add: rle_layer_rgba_def)
  have l4: "length (case toRGBA p of (r, g, b, a) \<Rightarrow> [r, g, b, a]) = 4"
    by (simp split: prod.splits)
  show ?case
  proof (cases i)
    case 0
    then show ?thesis using Cons.prems l4 by (simp add: unfold nth_append)
  next
    case (Suc i')
    then have "i' < length L" using Cons.prems by simp
    from Cons.IH [OF this Cons.prems(2)] show ?thesis
      using Suc l4 by (simp add: unfold nth_append)
  qed
qed

lemma composite_rle_as_png:
  assumes "i < length L"
  shows "composite_rle_step L i c = composite_png_step (rle_layer_rgba L) i c"
proof -
  obtain r g b a where rgba: "toRGBA (L ! i) = (r, g, b, a)"
    by (cases "toRGBA (L ! i)") auto
  have "rle_layer_rgba L ! (i * 4 + 0) = r" "rle_layer_rgba L ! (i * 4 + 1) = g"
    "rle_layer_rgba L ! (i * 4 + 2) = b" "rle_layer_rgba L ! (i * 4 + 3) = a"
    using rle_layer_rgba_nth [OF assms, of 0] rle_layer_rgba_nth [OF assms, of 1]
      rle_layer_rgba_nth [OF assms, of 2] rle_layer_rgba_nth [OF assms, of 3] rgba
    by simp_all
  then show ?thesis
    using assms rgba
    by (simp add: composite_rle_step_def composite_png_step_def Let_def length_rle_layer_rgba)
qed

lemma fold_cong_set: "(\<And>x. x \<in> set xs \<Longrightarrow> f x = g x) \<Longrightarrow> fold f xs c = fold g xs c"
  by (induction xs arbitrary: c) simp_all

lemma composite_rle_eq_png:
  "n \<le> length L \<Longrightarrow> composite_rle L n c = composite_png (rle_layer_rgba L) n c"
  unfolding composite_rle_def composite_png_def
  by (rule fold_cong_set) (auto simp: composite_rle_as_png)


lemma render_layer_opaque:
  assumes "render_layer png w h layer (r, c, ws) = Inr (r', c', ws')"
    and "length c = w * h * 4 \<and> (\<forall>j<w * h. c ! (j * 4 + 3) = 255)"
  shows "length c' = w * h * 4 \<and> (\<forall>j<w * h. c' ! (j * 4 + 3) = 255)"
proof (cases "bitmapAddress layer = Num 0")
  case True
  with assms show ?thesis by (simp add: render_layer_def)
next
  case False
  with assms(1) obtain d r1 where rb: "read_block r (bitmapAddress layer) = Inr (d, r1)"
    by (auto simp: render_layer_def split: sum.splits)
  show ?thesis
  proof (cases "protocol layer = ascii ''RATTA_RLE''")
    case True
    with assms(1) False rb have "c' = composite_rle (decodeRLE d w h) (w * h) c"
      by (simp add: render_layer_def)
    then show ?thesis
      using composite_rle_opaque_canvas [OF assms(2)] by simp
  next
    case notrle: False
    show ?thesis
    proof (cases "protocol layer = ascii ''PNG''")
      case True
      show ?thesis
      proof (cases "png d w h")
        case None
        with assms(1) False rb notrle True have "c' = c"
          by (simp add: render_layer_def)
        with assms(2) show ?thesis by simp
      next
        case (Some layerPixels)
        with assms(1) False rb notrle True have "c' = composite_png layerPixels (w * h) c"
          by (simp add: render_layer_def)
        then show ?thesis
          using composite_png_opaque_canvas [OF assms(2)] by simp
      qed
    next
      case False
      with assms(1) \<open>bitmapAddress layer \<noteq> Num 0\<close> rb notrle have "c' = c"
        by (simp add: render_layer_def)
      with assms(2) show ?thesis by simp
    qed
  qed
qed

lemma render_layers_opaque:
  "render_layers png w h ls (r, c, ws) = Inr (r', c', ws') \<Longrightarrow>
   length c = w * h * 4 \<and> (\<forall>j<w * h. c ! (j * 4 + 3) = 255) \<Longrightarrow>
   length c' = w * h * 4 \<and> (\<forall>j<w * h. c' ! (j * 4 + 3) = 255)"
proof (induction ls arbitrary: r c ws)
  case Nil
  then show ?case by simp
next
  case (Cons layer ls)
  from Cons.prems(1) obtain r1 c1 ws1 where
    step: "render_layer png w h layer (r, c, ws) = Inr (r1, c1, ws1)"
    and rest: "render_layers png w h ls (r1, c1, ws1) = Inr (r', c', ws')"
    by (auto split: sum.splits)
  from render_layer_opaque [OF step Cons.prems(2)] Cons.IH [OF rest]
  show ?case by blast
qed

lemma read_block_example:
  "read_block \<lparr>data = [0, 0, 0, 0, 2, 0, 0, 0, 0x61, 0], pos = Num 0\<rparr> (Num 4) =
   Inr ([0x61, 0], \<lparr>data = [0, 0, 0, 0, 2, 0, 0, 0, 0x61, 0], pos = Num 10\<rparr>)"
  by (simp add: read_block_def seek_def readU32LE_def readBytes_def checkBounds_def getUint32_def)




lemma white_canvas_1: "white_canvas 1 1 = [255, 255, 255, 255]"
  by code_simp

lemma decodeRLE_one_black: "decodeRLE [0x61, 0] 1 1 = [0x61]"
  by code_simp

lemma composite_one_black: "composite_rle [0x61] 1 [255, 255, 255, 255] = [0, 0, 0, 255]"
  by code_simp

text \<open>
  C8. A layer that is opaque at every pixel replaces the canvas: after compositing,
  the canvas holds exactly the layer's colors, so two canvases of the page's size end
  up equal. This holds for a decoded image layer (RGBA, alpha byte 255 at every pixel)
  and for a run-length layer (no pixel code for which \<^verbatim>\<open>toRGBA\<close> answers another
  alpha).
\<close>

theorem opaque_layer_overwrites:
  assumes "length canvas = n * 4" and "length canvas' = n * 4"
  shows "(length layerPixels = n * 4 \<and> (\<forall>i<n. layerPixels ! (i * 4 + 3) = 255) \<longrightarrow>
            composite_png layerPixels n canvas = layerPixels \<and>
            composite_png layerPixels n canvas = composite_png layerPixels n canvas')
       \<and> (length rlePixels = n \<and> (\<forall>p\<in>set rlePixels. snd (snd (snd (toRGBA p))) = 255) \<longrightarrow>
            composite_rle rlePixels n canvas = rle_layer_rgba rlePixels \<and>
            composite_rle rlePixels n canvas = composite_rle rlePixels n canvas')"
proof (intro conjI impI)
  assume png: "length layerPixels = n * 4 \<and> (\<forall>i<n. layerPixels ! (i * 4 + 3) = 255)"
  then show "composite_png layerPixels n canvas = layerPixels"
    using assms(1) by (simp add: composite_png_opaque)
  with png show "composite_png layerPixels n canvas = composite_png layerPixels n canvas'"
    using assms(2) by (simp add: composite_png_opaque)
next
  assume rle: "length rlePixels = n \<and> (\<forall>p\<in>set rlePixels. snd (snd (snd (toRGBA p))) = 255)"
  have alpha: "\<forall>i<n. rle_layer_rgba rlePixels ! (i * 4 + 3) = 255"
  proof (intro allI impI)
    fix i assume "i < n"
    with rle have i: "i < length rlePixels" and "snd (snd (snd (toRGBA (rlePixels ! i)))) = 255"
      by simp_all
    then show "rle_layer_rgba rlePixels ! (i * 4 + 3) = 255"
      using rle_layer_rgba_nth [OF i, of 3] by (simp split: prod.splits)
  qed
  have len: "length (rle_layer_rgba rlePixels) = n * 4"
    using rle by (simp add: length_rle_layer_rgba)
  have eq: "composite_rle rlePixels n c = composite_png (rle_layer_rgba rlePixels) n c" for c
    using rle by (simp add: composite_rle_eq_png)
  show "composite_rle rlePixels n canvas = rle_layer_rgba rlePixels"
    using composite_png_opaque [OF len assms(1) alpha] by (simp add: eq)
  then show "composite_rle rlePixels n canvas = composite_rle rlePixels n canvas'"
    using composite_png_opaque [OF len assms(2) alpha] by (simp add: eq)
qed

theorem opaque_layer_overwrites_witness:
  "composite_png [10, 20, 30, 255] 1 [1, 2, 3, 4] = [10, 20, 30, 255]
   \<and> composite_png [10, 20, 30, 255] 1 [1, 2, 3, 4] = composite_png [10, 20, 30, 255] 1 [5, 6, 7, 8]
   \<and> composite_rle [0x61] 1 [1, 2, 3, 4] = rle_layer_rgba [0x61]
   \<and> composite_rle [0x61] 1 [1, 2, 3, 4] = composite_rle [0x61] 1 [5, 6, 7, 8]
   \<and> rle_layer_rgba [0x61] = [0, 0, 0, 255]"
proof -
  have canvases: "length [1, 2, 3, 4 :: byte] = 1 * 4" "length [5, 6, 7, 8 :: byte] = 1 * 4"
    by simp_all
  have png: "length [10, 20, 30, 255 :: byte] = 1 * 4
      \<and> (\<forall>i<1. [10, 20, 30, 255 :: byte] ! (i * 4 + 3) = 255)"
    by simp
  have rle: "length [0x61 :: byte] = 1 \<and> (\<forall>p\<in>set [0x61 :: byte]. snd (snd (snd (toRGBA p))) = 255)"
    by (simp add: toRGBA_def)
  have colors: "rle_layer_rgba [0x61] = [0, 0, 0, 255]"
    by (simp add: rle_layer_rgba_def toRGBA_def)
  from opaque_layer_overwrites [OF canvases, of "[10, 20, 30, 255]" "[0x61]"] png rle colors
  show ?thesis
    by blast
qed

text \<open>
  C10. Whenever \<^verbatim>\<open>renderPage\<close> returns, the raster has \<open>width * height\<close> RGBA pixels
  and the alpha byte of every one of them is 255: the canvas starts that way, the
  opaque branch stores 255, and no other branch stores an alpha byte. This holds for
  whatever the image decoder answers.
\<close>

theorem renderPage_alpha_255:
  "renderPage decodePNG reader page width height = Inr (canvas, reader', warnings) \<Longrightarrow>
   length canvas = width * height * 4 \<and> (\<forall>i<width * height. canvas ! (i * 4 + 3) = 255)"
proof -
  assume "renderPage decodePNG reader page width height = Inr (canvas, reader', warnings)"
  then have run: "render_layers decodePNG width height (layers page)
      (reader, white_canvas width height, []) = Inr (reader', canvas, warnings)"
    by (auto simp: renderPage_def split: sum.splits)
  have "length (white_canvas width height) = width * height * 4
      \<and> (\<forall>j<width * height. white_canvas width height ! (j * 4 + 3) = 255)"
    by (simp add: white_canvas_eq)
  with run show ?thesis
    by (rule render_layers_opaque)
qed

theorem renderPage_alpha_255_witness:
  "renderPage png_unavailable \<lparr>data = [0, 0, 0, 0, 2, 0, 0, 0, 0x61, 0], pos = Num 0\<rparr>
     \<lparr>addr = Num 0, layers = [\<lparr>key = ascii ''MAINLAYER'', protocol = ascii ''RATTA_RLE'',
                                 bitmapAddress = Num 4\<rparr>]\<rparr> 1 1
   = Inr ([0, 0, 0, 255], \<lparr>data = [0, 0, 0, 0, 2, 0, 0, 0, 0x61, 0], pos = Num 10\<rparr>, [])
   \<and> length [0, 0, 0, 255 :: byte] = 1 * 1 * 4
   \<and> [0, 0, 0, 255 :: byte] ! (0 * 4 + 3) = 255"
proof -
  have run: "renderPage png_unavailable \<lparr>data = [0, 0, 0, 0, 2, 0, 0, 0, 0x61, 0], pos = Num 0\<rparr>
     \<lparr>addr = Num 0, layers = [\<lparr>key = ascii ''MAINLAYER'', protocol = ascii ''RATTA_RLE'',
                                 bitmapAddress = Num 4\<rparr>]\<rparr> 1 1
   = Inr ([0, 0, 0, 255], \<lparr>data = [0, 0, 0, 0, 2, 0, 0, 0, 0x61, 0], pos = Num 10\<rparr>, [])"
    using white_canvas_1 decodeRLE_one_black composite_one_black
    by (simp add: renderPage_def render_layer_def read_block_example)
  from renderPage_alpha_255 [OF run] run show ?thesis
    by simp
qed




section \<open>Properties of validation and of metadata records\<close>

lemma utf8_cont1_first:
  assumes "utf8_run (Continuation cp 1 lo hi) bs = x # xs"
  shows "x = 0xFFFD \<or> (\<exists>b rest. bs = b # rest \<and> lo \<le> b \<and> b \<le> hi
            \<and> x = cp * 64 + b mod 64 \<and> xs = utf8_run Idle rest)"
proof (cases bs)
  case Nil
  with assms show ?thesis by simp
next
  case (Cons b rest)
  show ?thesis
  proof (cases "b < lo \<or> hi < b")
    case True
    with assms Cons show ?thesis
      by (auto simp: utf8_step_def split: prod.splits)
  next
    case False
    with assms Cons show ?thesis
      by (simp add: utf8_step_def)
  qed
qed

lemma utf8_cont2_first:
  assumes "utf8_run (Continuation cp 2 lo hi) bs = x # xs"
  shows "x = 0xFFFD \<or> (\<exists>b1 b2 rest. bs = b1 # b2 # rest \<and> lo \<le> b1 \<and> b1 \<le> hi
            \<and> 0x80 \<le> b2 \<and> b2 \<le> 0xBF
            \<and> x = (cp * 64 + b1 mod 64) * 64 + b2 mod 64 \<and> xs = utf8_run Idle rest)"
proof (cases bs)
  case Nil
  with assms show ?thesis by simp
next
  case (Cons b1 rest)
  show ?thesis
  proof (cases "b1 < lo \<or> hi < b1")
    case True
    with assms Cons show ?thesis
      by (auto simp: utf8_step_def split: prod.splits)
  next
    case False
    with assms Cons have "utf8_run (Continuation (cp * 64 + b1 mod 64) 1 0x80 0xBF) rest = x # xs"
      by (simp add: utf8_step_def)
    from utf8_cont1_first [OF this] False Cons show ?thesis
      by auto
  qed
qed

lemma utf8_cont3_first:
  assumes "utf8_run (Continuation cp 3 lo hi) bs = x # xs"
  shows "x = 0xFFFD \<or> (\<exists>b1 b2 b3 rest. bs = b1 # b2 # b3 # rest \<and> lo \<le> b1 \<and> b1 \<le> hi
            \<and> 0x80 \<le> b2 \<and> b2 \<le> 0xBF \<and> 0x80 \<le> b3 \<and> b3 \<le> 0xBF
            \<and> x = ((cp * 64 + b1 mod 64) * 64 + b2 mod 64) * 64 + b3 mod 64
            \<and> xs = utf8_run Idle rest)"
proof (cases bs)
  case Nil
  with assms show ?thesis by simp
next
  case (Cons b1 rest)
  show ?thesis
  proof (cases "b1 < lo \<or> hi < b1")
    case True
    with assms Cons show ?thesis
      by (auto simp: utf8_step_def split: prod.splits)
  next
    case False
    with assms Cons have "utf8_run (Continuation (cp * 64 + b1 mod 64) 2 0x80 0xBF) rest = x # xs"
      by (simp add: utf8_step_def)
    from utf8_cont2_first [OF this] False Cons show ?thesis
      by auto
  qed
qed

lemma mod_window:
  fixes b m lo :: nat
  assumes "lo \<le> b" "b < lo + m" "lo mod m = 0"
  shows "b mod m = b - lo"
proof -
  from assms(1) obtain k where k: "b = lo + k"
    by (auto simp: le_iff_add)
  with assms(2) have "k < m" by simp
  with k assms(3) show ?thesis
    by (simp add: mod_add_left_eq [symmetric])
qed

lemma three_bytes_feff:
  fixes k u v :: nat
  assumes "k \<le> 15" "u \<le> 63" "v \<le> 63" "(k * 64 + u) * 64 + v = 65279"
  shows "k = 15 \<and> u = 59 \<and> v = 63"
proof -
  from assms have eq: "k * 4096 + u * 64 + v = 65279"
    by (simp add: algebra_simps)
  with assms(1-3) have k: "k = 15"
    by linarith
  with eq assms(2,3) have u: "u = 59"
    by linarith
  with eq k have "v = 63"
    by linarith
  with k u show ?thesis by simp
qed

text \<open>What the first code point of a text that starts with a byte above 0x7F can be.\<close>

lemma utf8_first_not_ascii:
  assumes run: "utf8_run Idle (b # bs) = x # xs" and b: "0x80 \<le> b"
  shows "128 \<le> x \<and>
    (x = 0xFEFF \<longrightarrow> (\<exists>rest. b # bs = 0xEF # 0xBB # 0xBF # rest \<and> xs = utf8_run Idle rest))"
proof -
  consider (two) "0xC2 \<le> b \<and> b \<le> 0xDF" | (three) "0xE0 \<le> b \<and> b \<le> 0xEF"
    | (four) "0xF0 \<le> b \<and> b \<le> 0xF4"
    | (bad) "\<not> (0xC2 \<le> b \<and> b \<le> 0xDF) \<and> \<not> (0xE0 \<le> b \<and> b \<le> 0xEF) \<and> \<not> (0xF0 \<le> b \<and> b \<le> 0xF4)"
    by blast
  then show ?thesis
  proof cases
    case two
    with run b have "utf8_run (Continuation (b mod 32) 1 0x80 0xBF) bs = x # xs"
      by (simp add: utf8_step_def utf8_lead_def)
    from utf8_cont1_first [OF this] consider "x = 0xFFFD"
      | b1 where "0x80 \<le> b1" "b1 \<le> 0xBF" "x = (b mod 32) * 64 + b1 mod 64"
      by blast
    then show ?thesis
    proof cases
      case 1
      then show ?thesis by simp
    next
      case 2
      have k: "b mod 32 = b - 192"
        by (rule mod_window) (use two in simp_all)
      have u: "b1 mod 64 = b1 - 128"
        by (rule mod_window) (use 2 in simp_all)
      from 2(3) two 2(1,2) have "128 \<le> x \<and> x < 2112"
        unfolding k u by linarith
      then show ?thesis by simp
    qed
  next
    case three
    define lo where "lo = (if b = 0xE0 then 0xA0 else (0x80::nat))"
    define hi where "hi = (if b = 0xED then 0x9F else (0xBF::nat))"
    from three run b have "utf8_run (Continuation (b mod 16) 2 lo hi) bs = x # xs"
      by (simp add: utf8_step_def utf8_lead_def lo_def hi_def)
    from utf8_cont2_first [OF this] consider "x = 0xFFFD"
      | b1 b2 rest where "bs = b1 # b2 # rest" "lo \<le> b1" "b1 \<le> hi" "0x80 \<le> b2" "b2 \<le> 0xBF"
          "x = ((b mod 16) * 64 + b1 mod 64) * 64 + b2 mod 64" "xs = utf8_run Idle rest"
      by blast
    then show ?thesis
    proof cases
      case 1
      then show ?thesis by simp
    next
      case 2
      have lohi: "0x80 \<le> lo" "hi \<le> 0xBF" "b = 0xE0 \<longrightarrow> 0xA0 \<le> lo"
        by (simp_all add: lo_def hi_def)
      with 2(2,3) have b1: "0x80 \<le> b1" "b1 \<le> 0xBF"
        by simp_all
      have k: "b mod 16 = b - 224"
        by (rule mod_window) (use three in simp_all)
      have u: "b1 mod 64 = b1 - 128"
        by (rule mod_window) (use b1 in simp_all)
      have v: "b2 mod 64 = b2 - 128"
        by (rule mod_window) (use 2 in simp_all)
      have x: "x = ((b - 224) * 64 + (b1 - 128)) * 64 + (b2 - 128)"
        using 2(6) by (simp only: k u v)
      have "1 \<le> b - 224 \<or> 32 \<le> b1 - 128"
        using three lohi(3) 2(2) by (cases "b = 0xE0") auto
      then have big: "128 \<le> x"
        unfolding x by (auto simp: algebra_simps)
      have "x = 0xFEFF \<longrightarrow> b = 0xEF \<and> b1 = 0xBB \<and> b2 = 0xBF"
      proof
        assume "x = 0xFEFF"
        with x have "((b - 224) * 64 + (b1 - 128)) * 64 + (b2 - 128) = 65279"
          by simp
        moreover have "b - 224 \<le> 15" "b1 - 128 \<le> 63" "b2 - 128 \<le> 63"
          using three b1 2(4,5) by auto
        ultimately have "b - 224 = 15 \<and> b1 - 128 = 59 \<and> b2 - 128 = 63"
          by (intro three_bytes_feff)
        with three b1 2(4,5) show "b = 0xEF \<and> b1 = 0xBB \<and> b2 = 0xBF"
          by auto
      qed
      with big 2(1,7) show ?thesis
        by auto
    qed
  next
    case four
    define lo where "lo = (if b = 0xF0 then 0x90 else (0x80::nat))"
    define hi where "hi = (if b = 0xF4 then 0x8F else (0xBF::nat))"
    from four run b have "utf8_run (Continuation (b mod 8) 3 lo hi) bs = x # xs"
      by (simp add: utf8_step_def utf8_lead_def lo_def hi_def)
    from utf8_cont3_first [OF this] consider "x = 0xFFFD"
      | b1 b2 b3 where "lo \<le> b1" "b1 \<le> hi"
          "x = (((b mod 8) * 64 + b1 mod 64) * 64 + b2 mod 64) * 64 + b3 mod 64"
      by blast
    then show ?thesis
    proof cases
      case 1
      then show ?thesis by simp
    next
      case 2
      have lohi: "0x80 \<le> lo" "hi \<le> 0xBF" "b = 0xF0 \<longrightarrow> 0x90 \<le> lo"
        by (simp_all add: lo_def hi_def)
      with 2(1,2) have b1: "0x80 \<le> b1" "b1 \<le> 0xBF"
        by simp_all
      have k: "b mod 8 = b - 240"
        by (rule mod_window) (use four in simp_all)
      have u: "b1 mod 64 = b1 - 128"
        by (rule mod_window) (use b1 in simp_all)
      have "1 \<le> b - 240 \<or> 16 \<le> b1 - 128"
        using four lohi(3) 2(1) by (cases "b = 0xF0") auto
      then have "65536 \<le> x"
        unfolding 2(3) k u by (auto simp: algebra_simps)
      then show ?thesis
        by simp
    qed
  next
    case bad
    with run b have "x = 0xFFFD"
      by (simp add: utf8_step_def utf8_lead_def split: if_splits)
    then show ?thesis by simp
  qed
qed

lemma prefix_ascii_utf8_run:
  "\<forall>c\<in>set p. c < 128 \<Longrightarrow> prefix p (utf8_run Idle ns) \<longleftrightarrow> prefix p ns"
proof (induction p arbitrary: ns)
  case Nil
  then show ?case by simp
next
  case (Cons c p)
  show ?case
  proof (cases ns)
    case Nil
    then show ?thesis by simp
  next
    case (Cons b bs)
    show ?thesis
    proof (cases "b \<le> 0x7F")
      case True
      then have "utf8_run Idle (b # bs) = b # utf8_run Idle bs"
        by (simp add: utf8_step_def utf8_lead_def)
      with Cons Cons.IH [of bs] Cons.prems show ?thesis
        by simp
    next
      case False
      have "\<not> prefix (c # p) (utf8_run Idle (b # bs))"
      proof
        assume "prefix (c # p) (utf8_run Idle (b # bs))"
        then obtain xs where "utf8_run Idle (b # bs) = c # xs"
          by (auto simp: prefix_def)
        from utf8_first_not_ascii [OF this] False have "128 \<le> c"
          by simp
        with Cons.prems show False by simp
      qed
      moreover from False Cons.prems have "c \<noteq> b"
        by auto
      ultimately show ?thesis
        using Cons by simp
    qed
  qed
qed

lemma prefix_ascii_utf16:
  "\<forall>c\<in>set p. c < 128 \<Longrightarrow> prefix p (concat (map utf16_units cps)) \<longleftrightarrow> prefix p cps"
proof (induction p arbitrary: cps)
  case Nil
  then show ?case by simp
next
  case (Cons c p)
  show ?case
  proof (cases cps)
    case Nil
    then show ?thesis by simp
  next
    case (Cons x xs)
    show ?thesis
    proof (cases "x < 0x10000")
      case True
      with Cons Cons.IH [of xs] Cons.prems show ?thesis
        by (simp add: utf16_units_def)
    next
      case False
      with Cons.prems have "c \<noteq> x" "c \<noteq> 0xD800 + (x - 0x10000) div 0x400"
        by auto
      with False Cons show ?thesis
        by (simp add: utf16_units_def)
    qed
  qed
qed

lemma utf8_run_bom: "utf8_run Idle (0xEF # 0xBB # 0xBF # rest) = 0xFEFF # utf8_run Idle rest"
  by (simp add: utf8_step_def utf8_lead_def)

lemma prefix_ascii_text_decode:
  assumes ascii: "\<forall>c\<in>set p. c < 128" and ne: "p \<noteq> []"
  shows "prefix p (text_decode bytes) \<longleftrightarrow>
         prefix p (map unat bytes) \<or> prefix ([0xEF, 0xBB, 0xBF] @ p) (map unat bytes)"
proof -
  define ns where "ns = map unat bytes"
  have decode: "prefix p (text_decode bytes) \<longleftrightarrow> prefix p (drop_bom (utf8_run Idle ns))"
    using ascii by (simp add: text_decode_def ns_def prefix_ascii_utf16)
  from ne obtain c p' where p: "p = c # p'"
    by (cases p) auto
  with ascii have c: "c < 128" by simp
  show ?thesis
  proof (cases "\<exists>rest. ns = 0xEF # 0xBB # 0xBF # rest")
    case True
    then obtain rest where rest: "ns = 0xEF # 0xBB # 0xBF # rest"
      by blast
    have "utf8_run Idle ns = 0xFEFF # utf8_run Idle rest"
      unfolding rest by (rule utf8_run_bom)
    then have "drop_bom (utf8_run Idle ns) = utf8_run Idle rest"
      by (simp add: drop_bom_def)
    with decode have "prefix p (text_decode bytes) \<longleftrightarrow> prefix p rest"
      using ascii by (simp add: prefix_ascii_utf8_run)
    moreover have "\<not> prefix p ns"
      using rest p c by auto
    ultimately show ?thesis
      using rest by (simp add: ns_def [symmetric])
  next
    case False
    have nobom: "drop_bom (utf8_run Idle ns) = utf8_run Idle ns"
    proof (cases "utf8_run Idle ns")
      case Nil
      then show ?thesis by (simp add: drop_bom_def)
    next
      case (Cons x xs)
      have "x \<noteq> 0xFEFF"
      proof
        assume x: "x = 0xFEFF"
        from Cons obtain b bs where ns: "ns = b # bs"
          by (cases ns) auto
        show False
        proof (cases "b \<le> 0x7F")
          case True
          with Cons ns x show False
            by (simp add: utf8_step_def utf8_lead_def)
        next
          case notascii: False
          with utf8_first_not_ascii [of b bs x xs] Cons ns x False show False
            by auto
        qed
      qed
      with Cons show ?thesis by (simp add: drop_bom_def)
    qed
    have "\<not> prefix ([0xEF, 0xBB, 0xBF] @ p) ns"
      using False by (auto simp: prefix_def)
    with decode nobom show ?thesis
      using ascii by (simp add: prefix_ascii_utf8_run ns_def [symmetric])
  qed
qed

lemma getSignature_ok:
  "24 \<le> length (data reader) \<Longrightarrow>
   getSignature reader =
     Inr (text_decode (take 20 (drop 4 (data reader))), reader\<lparr>pos := Num 24\<rparr>)"
  by (simp add: getSignature_def seek_def readString_def readBytes_def checkBounds_def)

lemma validateNoteFile_small:
  "length (data reader) < 100 \<Longrightarrow>
   validateNoteFile reader =
     Inl (if length (data reader) = 0 then EmptyFile else FileTooSmall (length (data reader)))"
  by (simp add: validateNoteFile_def MIN_NOTE_FILE_SIZE_def)

lemma validateNoteFile_signature:
  assumes "100 \<le> length (data reader)"
  shows "validateNoteFile reader =
     (if \<exists>p\<in>set VALID_SIGNATURE_PREFIXES. prefix p (text_decode (take 20 (drop 4 (data reader))))
      then Inr (reader\<lparr>pos := Num 24\<rparr>)
      else if sublist (ascii ''<!doctype'') (toLowerCase (text_decode (take 50 (data reader))))
              \<or> sublist (ascii ''<html'') (toLowerCase (text_decode (take 50 (data reader))))
      then Inl HtmlInsteadOfNote
      else Inl (InvalidSignature (take 20 (text_decode (take 20 (drop 4 (data reader)))))))"
proof -
  from assms have ne: "data reader \<noteq> []" "length (data reader) \<noteq> 0"
    by auto
  from assms have "24 \<le> length (data reader)"
    by simp
  then show ?thesis
    using assms ne
    by (simp add: validateNoteFile_def MIN_NOTE_FILE_SIZE_def getSignature_ok list_ex_iff
        seek_def readBytes_def checkBounds_def Let_def)
qed

lemma prefixes_ascii:
  "\<forall>p\<in>set VALID_SIGNATURE_PREFIXES. (\<forall>c\<in>set p. c < 128) \<and> p \<noteq> []"
  by (simp add: VALID_SIGNATURE_PREFIXES_def ascii_def)

lemma signature_accepted_iff:
  "(\<exists>p\<in>set VALID_SIGNATURE_PREFIXES. prefix p (text_decode bytes)) \<longleftrightarrow>
   (\<exists>p\<in>set VALID_SIGNATURE_PREFIXES.
      prefix p (map unat bytes) \<or> prefix ([0xEF, 0xBB, 0xBF] @ p) (map unat bytes))"
  using prefixes_ascii prefix_ascii_text_decode by blast

lemma prefix_replicate_head: "prefix (c # p) (replicate n x) \<Longrightarrow> c = x"
  by (cases n) auto

text \<open>
  C5 (as amended). A buffer shorter than 100 bytes is rejected on its length alone.
  A longer buffer is rejected when its bytes 4 to 23 start neither with one of the
  three prefixes nor with the byte-order mark \<open>EF BB BF\<close> followed by one of them,
  whatever the rest of the buffer holds; and it passes when they do.
\<close>

theorem validateNoteFile_gate:
  "(length (data reader) < 100 \<longrightarrow>
      validateNoteFile reader =
        Inl (if length (data reader) = 0 then EmptyFile
             else FileTooSmall (length (data reader))))
   \<and> (100 \<le> length (data reader) \<and>
      (\<forall>p\<in>set VALID_SIGNATURE_PREFIXES.
         \<not> prefix p (map unat (take 20 (drop 4 (data reader)))) \<and>
         \<not> prefix ([0xEF, 0xBB, 0xBF] @ p) (map unat (take 20 (drop 4 (data reader))))) \<longrightarrow>
      validateNoteFile reader = Inl HtmlInsteadOfNote \<or>
      validateNoteFile reader =
        Inl (InvalidSignature (take 20 (text_decode (take 20 (drop 4 (data reader)))))))
   \<and> (100 \<le> length (data reader) \<and>
      (\<exists>p\<in>set VALID_SIGNATURE_PREFIXES.
         prefix p (map unat (take 20 (drop 4 (data reader)))) \<or>
         prefix ([0xEF, 0xBB, 0xBF] @ p) (map unat (take 20 (drop 4 (data reader))))) \<longrightarrow>
      validateNoteFile reader = Inr (reader\<lparr>pos := Num 24\<rparr>))"
proof (intro conjI impI)
  assume "length (data reader) < 100"
  then show "validateNoteFile reader =
      Inl (if length (data reader) = 0 then EmptyFile else FileTooSmall (length (data reader)))"
    by (rule validateNoteFile_small)
next
  assume a: "100 \<le> length (data reader) \<and>
      (\<forall>p\<in>set VALID_SIGNATURE_PREFIXES.
         \<not> prefix p (map unat (take 20 (drop 4 (data reader)))) \<and>
         \<not> prefix ([0xEF, 0xBB, 0xBF] @ p) (map unat (take 20 (drop 4 (data reader)))))"
  then have "\<not> (\<exists>p\<in>set VALID_SIGNATURE_PREFIXES.
      prefix p (text_decode (take 20 (drop 4 (data reader)))))"
    unfolding signature_accepted_iff by blast
  with a show "validateNoteFile reader = Inl HtmlInsteadOfNote \<or>
      validateNoteFile reader =
        Inl (InvalidSignature (take 20 (text_decode (take 20 (drop 4 (data reader))))))"
    by (simp add: validateNoteFile_signature)
next
  assume a: "100 \<le> length (data reader) \<and>
      (\<exists>p\<in>set VALID_SIGNATURE_PREFIXES.
         prefix p (map unat (take 20 (drop 4 (data reader)))) \<or>
         prefix ([0xEF, 0xBB, 0xBF] @ p) (map unat (take 20 (drop 4 (data reader)))))"
  then have "\<exists>p\<in>set VALID_SIGNATURE_PREFIXES.
      prefix p (text_decode (take 20 (drop 4 (data reader))))"
    unfolding signature_accepted_iff by blast
  with a show "validateNoteFile reader = Inr (reader\<lparr>pos := Num 24\<rparr>)"
    by (simp add: validateNoteFile_signature)
qed

theorem validateNoteFile_gate_witness:
  "validateNoteFile \<lparr>data = [1, 2, 3], pos = Num 0\<rparr> = Inl (FileTooSmall 3)
   \<and> (validateNoteFile \<lparr>data = replicate 100 0, pos = Num 0\<rparr> = Inl HtmlInsteadOfNote \<or>
      validateNoteFile \<lparr>data = replicate 100 0, pos = Num 0\<rparr> =
        Inl (InvalidSignature (take 20 (text_decode (replicate 20 0)))))
   \<and> validateNoteFile \<lparr>data = replicate 4 0 @ map of_nat (ascii ''SN_FILE_VER_20230015'') @ replicate 76 0,
        pos = Num 0\<rparr>
     = Inr \<lparr>data = replicate 4 0 @ map of_nat (ascii ''SN_FILE_VER_20230015'') @ replicate 76 0,
        pos = Num 24\<rparr>"
proof -
  let ?small = "\<lparr>data = [1, 2, 3], pos = Num 0\<rparr>"
  let ?zeros = "\<lparr>data = replicate 100 0, pos = Num 0\<rparr>"
  let ?note = "\<lparr>data = replicate 4 0 @ map of_nat (ascii ''SN_FILE_VER_20230015'') @ replicate 76 0,
        pos = Num 0\<rparr>"
  have small: "length (data ?small) < 100"
    by simp
  have zeros: "100 \<le> length (data ?zeros) \<and>
      (\<forall>p\<in>set VALID_SIGNATURE_PREFIXES.
         \<not> prefix p (map unat (take 20 (drop 4 (data ?zeros)))) \<and>
         \<not> prefix ([0xEF, 0xBB, 0xBF] @ p) (map unat (take 20 (drop 4 (data ?zeros)))))"
    by (auto simp: VALID_SIGNATURE_PREFIXES_def ascii_def dest: prefix_replicate_head)
  have good: "100 \<le> length (data ?note) \<and>
      (\<exists>p\<in>set VALID_SIGNATURE_PREFIXES.
         prefix p (map unat (take 20 (drop 4 (data ?note)))) \<or>
         prefix ([0xEF, 0xBB, 0xBF] @ p) (map unat (take 20 (drop 4 (data ?note)))))"
    by (simp add: VALID_SIGNATURE_PREFIXES_def ascii_def)
  have c1: "validateNoteFile ?small = Inl (FileTooSmall 3)"
    using validateNoteFile_gate [of ?small] small by simp
  have c2: "validateNoteFile ?zeros = Inl HtmlInsteadOfNote \<or>
      validateNoteFile ?zeros =
        Inl (InvalidSignature (take 20 (text_decode (take 20 (drop 4 (data ?zeros))))))"
    using validateNoteFile_gate [of ?zeros] zeros by blast
  have c3: "validateNoteFile ?note = Inr (?note\<lparr>pos := Num 24\<rparr>)"
    using validateNoteFile_gate [of ?note] good by blast
  from c1 c2 c3 show ?thesis
    by simp
qed

text \<open>
  C5 as stated fails: the signature field of this buffer starts with none of the three
  prefixes, yet the buffer passes, since the text decoder drops the byte-order mark.
\<close>

theorem validateNoteFile_accepts_bom:
  "length bom_signature_buffer = 100
   \<and> \<not> prefix (ascii ''noteSN_FILE_VER_'') (map unat (take 20 (drop 4 bom_signature_buffer)))
   \<and> \<not> prefix (ascii ''SN_FILE_VER_'') (map unat (take 20 (drop 4 bom_signature_buffer)))
   \<and> \<not> prefix (ascii ''SN_FILE_ASA_'') (map unat (take 20 (drop 4 bom_signature_buffer)))
   \<and> validateNoteFile \<lparr>data = bom_signature_buffer, pos = Num 0\<rparr>
       = Inr \<lparr>data = bom_signature_buffer, pos = Num 24\<rparr>"
proof -
  have len: "length bom_signature_buffer = 100"
    by (simp add: bom_signature_buffer_def)
  have field: "map unat (take 20 (drop 4 bom_signature_buffer)) =
      [0xEF, 0xBB, 0xBF] @ ascii ''SN_FILE_VER_'' @ replicate 5 0"
    by (simp add: bom_signature_buffer_def ascii_def)
  have "\<exists>p\<in>set VALID_SIGNATURE_PREFIXES.
      prefix p (text_decode (take 20 (drop 4 bom_signature_buffer)))"
    unfolding signature_accepted_iff field
    by (simp add: VALID_SIGNATURE_PREFIXES_def)
  with len have "validateNoteFile \<lparr>data = bom_signature_buffer, pos = Num 0\<rparr>
       = Inr \<lparr>data = bom_signature_buffer, pos = Num 24\<rparr>"
    by (simp add: validateNoteFile_signature)
  with len show ?thesis
    unfolding field by (simp add: ascii_def)
qed

text \<open>
  On integer addresses \<^verbatim>\<open>parseMetadataBlock\<close> never throws. Address 0 gives the empty
  record and no diagnostic; a negative address, one past \<open>length - 4\<close>, and a block
  length that is 0 or exceeds the rest of the buffer give the empty record and one
  diagnostic.
\<close>

lemma parseMetadataBlock_zero:
  "parseMetadataBlock reader (Num 0) = Inr ([], reader, [])"
  by (simp add: parseMetadataBlock_def)

lemma parseMetadataBlock_NaN:
  "parseMetadataBlock reader NaN = Inl (ReadU32OutOfBounds NaN (length (data reader)))"
  by (simp add: parseMetadataBlock_def js_lt_def js_gt_def seek_def readU32LE_def)

lemma parseMetadataBlock_integer:
  "\<exists>m reader' warnings. parseMetadataBlock reader (Num a) = Inr (m, reader', warnings)"
  by (auto simp: parseMetadataBlock_def js_lt_def js_gt_def js_sub_def seek_def readU32LE_def
      readString_def readBytes_def checkBounds_def split: sum.splits if_splits)

lemma parseMetadataBlock_bad_address:
  "a < 0 \<or> a > int (length (data reader)) - 4 \<Longrightarrow> a \<noteq> 0 \<Longrightarrow> 
   parseMetadataBlock reader (Num a) = Inr ([], reader, [InvalidMetadataAddress (Num a) (length (data reader))])"
  by (auto simp: parseMetadataBlock_def js_lt_def js_gt_def)

lemma parseMetadataBlock_bad_length:
  assumes "0 < a" "a \<le> int (length (data reader)) - 4"
  and "getUint32 (data reader) (nat a) = 0 \<or> int (getUint32 (data reader) (nat a)) > int (length (data reader)) - a - 4"
  shows "parseMetadataBlock reader (Num a) = Inr ([], reader\<lparr>pos := Num (a + 4)\<rparr>, [InvalidBlockLength (getUint32 (data reader) (nat a)) (Num a) (length (data reader))])"
  using assms
  by (auto simp: parseMetadataBlock_def js_lt_def js_gt_def js_sub_def seek_def readU32LE_def checkBounds_def)

text \<open>
  C6. The claim fails on the address \<^verbatim>\<open>NaN\<close>, which \<^verbatim>\<open>parseNotebook\<close> passes for a layer entry
  whose value is not a number (line 251 has no \<^verbatim>\<open>isNaN\<close> test, lines 199 and 230
  have one): both comparisons of the address check are false, \<^verbatim>\<open>seek\<close> lets it
  through and \<^verbatim>\<open>readU32LE\<close> throws.
\<close>

theorem parseMetadataBlock_NaN_throws:
  "parseMetadataBlock \<lparr>data = replicate 100 0, pos = Num 0\<rparr> NaN
   = Inl (ReadU32OutOfBounds NaN 100)"
  by (simp add: parseMetadataBlock_NaN)

section \<open>Properties of the PDF emitter\<close>

lemma show_nat_ascii: "\<forall>c\<in>set (show_nat n). c < 128"
proof (induction n rule: show_nat.induct)
  case (1 n)
  then show ?case
    by (subst show_nat.simps) auto
qed

lemma utf8_encode_ascii_append:
  "\<forall>c\<in>set s. c < 128 \<Longrightarrow> utf8_encode (s @ t) = map of_nat s @ utf8_encode t"
  by (induction s) simp_all

lemma utf8_encode_ascii: "\<forall>c\<in>set s. c < 128 \<Longrightarrow> utf8_encode s = map of_nat s"
  using utf8_encode_ascii_append [of s "[]"] by simp

lemma declaration_prefix:
  "prefix (map of_nat (show_nat N @ ascii '' 0 obj'')) (utf8_encode (show_nat N @ ascii '' 0 obj'' @ t))"
proof -
  have "\<forall>c\<in>set (show_nat N @ ascii '' 0 obj''). c < 128"
    using show_nat_ascii [of N] by (simp add: ascii_def)
  from utf8_encode_ascii_append [OF this, of t] show ?thesis
    by simp
qed

lemma object_at_append: "object_at stream N offset \<Longrightarrow> object_at (stream @ rest) N offset"
  by (auto simp: object_at_def prefix_def)

lemma write_bytes_exact:
  "offsets_exact w \<Longrightarrow> offsets_exact (write_bytes bytes w)"
  by (simp add: offsets_exact_def write_bytes_def object_at_append)

lemma write_string_exact:
  "offsets_exact w \<Longrightarrow> offsets_exact (write_string s w)"
  by (simp add: write_string_def write_bytes_exact)

lemma xrefOffsets_write_bytes: "xrefOffsets (write_bytes bytes w) = xrefOffsets w"
  by (simp add: write_bytes_def)

lemma xrefOffsets_write_string: "xrefOffsets (write_string s w) = xrefOffsets w"
  by (simp add: write_string_def write_bytes_def)

lemma write_object_exact:
  assumes exact: "offsets_exact w"
    and N: "N = length (xrefOffsets w) + 1"
    and decl: "\<exists>t. s = show_nat N @ ascii '' 0 obj'' @ t"
  shows "offsets_exact (write_string s (push_offset w))
    \<and> length (xrefOffsets (write_string s (push_offset w))) = length (xrefOffsets w) + 1"
proof -
  let ?w = "write_string s (push_offset w)"
  from exact have off: "byteOffset w = length (concat (chunks w))"
    and objs: "\<forall>k<length (xrefOffsets w). object_at (concat (chunks w)) (k + 1) (xrefOffsets w ! k)"
    by (simp_all add: offsets_exact_def)
  from decl N obtain t where s: "s = show_nat (length (xrefOffsets w) + 1) @ ascii '' 0 obj'' @ t"
    by blast
  have stream: "concat (chunks ?w) = concat (chunks w) @ utf8_encode s"
    by (simp add: write_string_def write_bytes_def push_offset_def)
  have offsets: "xrefOffsets ?w = xrefOffsets w @ [length (concat (chunks w))]"
    by (simp add: write_string_def write_bytes_def push_offset_def off)
  have new: "object_at (concat (chunks ?w)) (length (xrefOffsets w) + 1) (length (concat (chunks w)))"
    unfolding object_at_def stream
    using declaration_prefix [of "length (xrefOffsets w) + 1" t]
    by (simp add: s del: utf8_encode.simps)
  have "object_at (concat (chunks ?w)) (k + 1) (xrefOffsets ?w ! k)"
    if "k < length (xrefOffsets w) + 1" for k
  proof (cases "k < length (xrefOffsets w)")
    case True
    with objs have "object_at (concat (chunks w)) (k + 1) (xrefOffsets w ! k)"
      by simp
    then show ?thesis
      using True by (simp add: stream offsets nth_append object_at_append)
  next
    case False
    with that have "k = length (xrefOffsets w)" by simp
    with new show ?thesis
      by (simp add: offsets)
  qed
  moreover have "byteOffset ?w = length (concat (chunks ?w))"
    by (simp add: write_string_def write_bytes_def push_offset_def off)
  ultimately show ?thesis
    by (simp add: offsets_exact_def offsets)
qed

lemma write_page_exact:
  assumes exact: "offsets_exact w" and count: "length (xrefOffsets w) = i * 3 + 2"
  shows "offsets_exact (write_page deflate pdfWidth pdfHeight width height i pageImage w)
    \<and> length (xrefOffsets (write_page deflate pdfWidth pdfHeight width height i pageImage w))
        = (i + 1) * 3 + 2"
proof -
  define contents where "contents = ascii ''q\<newline>'' @ show_nat pdfWidth @ ascii '' 0 0 '' @
      show_nat pdfHeight @ ascii '' 0 0 cm\<newline>/Im1 Do\<newline>Q\<newline>''"
  define s1 where "s1 = show_nat (i * 3 + 3) @
      ascii '' 0 obj\<newline><< /Type /Page\<newline>   /Parent 2 0 R\<newline>   /MediaBox [0 0 '' @
      show_nat pdfWidth @ ascii '' '' @ show_nat pdfHeight @
      ascii '']\<newline>   /Contents '' @ show_nat (i * 3 + 4) @
      ascii '' 0 R\<newline>   /Resources << /XObject << /Im1 '' @ show_nat (i * 3 + 5) @
      ascii '' 0 R >> >>\<newline>>>\<newline>endobj\<newline>''"
  define s2 where "s2 = show_nat (i * 3 + 4) @ ascii '' 0 obj\<newline><< /Length '' @
      show_nat (length contents) @ ascii '' >>\<newline>stream\<newline>'' @ contents @
      ascii ''\<newline>endstream\<newline>endobj\<newline>''"
  define s3 where "s3 = show_nat (i * 3 + 5) @
      ascii '' 0 obj\<newline><< /Type /XObject\<newline>   /Subtype /Image\<newline>   /Width '' @
      show_nat width @ ascii ''\<newline>   /Height '' @ show_nat height @
      ascii ''\<newline>   /ColorSpace /DeviceRGB\<newline>   /BitsPerComponent 8\<newline>   /Filter /FlateDecode\<newline>   /Length '' @
      show_nat (length (deflate pageImage)) @ ascii '' >>\<newline>stream\<newline>''"
  define w1 where "w1 = write_string s1 (push_offset w)"
  define w2 where "w2 = write_string s2 (push_offset w1)"
  define w3 where "w3 = write_string s3 (push_offset w2)"
  have page: "write_page deflate pdfWidth pdfHeight width height i pageImage w =
      write_string (ascii ''\<newline>endstream\<newline>endobj\<newline>'') (write_bytes (deflate pageImage) w3)"
    by (simp only: write_page_def Let_def w3_def w2_def w1_def s1_def s2_def s3_def contents_def)
  have "\<exists>t. s1 = show_nat (i * 3 + 3) @ ascii '' 0 obj'' @ t"
    by (simp add: s1_def ascii_def)
  from write_object_exact [OF exact _ this]
  have e1: "offsets_exact w1" and c1: "length (xrefOffsets w1) = i * 3 + 3"
    by (simp_all add: w1_def count)
  have "\<exists>t. s2 = show_nat (i * 3 + 4) @ ascii '' 0 obj'' @ t"
    by (simp add: s2_def ascii_def)
  from write_object_exact [OF e1 _ this]
  have e2: "offsets_exact w2" and c2: "length (xrefOffsets w2) = i * 3 + 4"
    by (simp_all add: w2_def c1)
  have "\<exists>t. s3 = show_nat (i * 3 + 5) @ ascii '' 0 obj'' @ t"
    by (simp add: s3_def ascii_def)
  from write_object_exact [OF e2 _ this]
  have e3: "offsets_exact w3" and c3: "length (xrefOffsets w3) = i * 3 + 5"
    by (simp_all add: w3_def c2)
  from e3 c3 show ?thesis
    unfolding page
    by (simp add: write_string_exact write_bytes_exact xrefOffsets_write_string
        xrefOffsets_write_bytes)
qed

lemma write_pages_exact:
  "offsets_exact w \<Longrightarrow> length (xrefOffsets w) = i * 3 + 2 \<Longrightarrow>
   offsets_exact (write_pages deflate pdfWidth pdfHeight width height i pageImages w)
   \<and> length (xrefOffsets (write_pages deflate pdfWidth pdfHeight width height i pageImages w))
       = (i + length pageImages) * 3 + 2"
proof (induction pageImages arbitrary: i w)
  case Nil
  then show ?case by simp
next
  case (Cons pageImage rest)
  from write_page_exact [OF Cons.prems, of deflate pdfWidth pdfHeight width height pageImage]
  have "offsets_exact (write_page deflate pdfWidth pdfHeight width height i pageImage w)"
    and "length (xrefOffsets (write_page deflate pdfWidth pdfHeight width height i pageImage w))
        = (i + 1) * 3 + 2"
    by simp_all
  from Cons.IH [OF this] show ?case
    by simp
qed

lemma write_preamble_exact:
  "offsets_exact (write_preamble pageCount) \<and> length (xrefOffsets (write_preamble pageCount)) = 2"
proof -
  define w0 where "w0 = write_string (ascii ''%PDF-1.7\<newline>%'' @ [0xE2, 0xE3, 0xCF, 0xD3] @ ascii ''\<newline>'')
      \<lparr>chunks = [], xrefOffsets = [], byteOffset = 0\<rparr>"
  define s1 where "s1 = ascii ''1 0 obj\<newline><< /Type /Catalog /Pages 2 0 R >>\<newline>endobj\<newline>''"
  define w1 where "w1 = write_string s1 (push_offset w0)"
  define s2 where "s2 = ascii ''2 0 obj\<newline><< /Type /Pages /Kids [ '' @
      join (ascii '' '') (map (\<lambda>i. show_nat (i * 3 + 3) @ ascii '' 0 R'') [0..<pageCount]) @
      ascii '' ] /Count '' @ show_nat pageCount @ ascii '' >>\<newline>endobj\<newline>''"
  have pre: "write_preamble pageCount = write_string s2 (push_offset w1)"
    by (simp only: write_preamble_def Let_def w1_def w0_def s1_def s2_def)
  have "offsets_exact \<lparr>chunks = [], xrefOffsets = [], byteOffset = 0\<rparr>"
    by (simp add: offsets_exact_def)
  then have e0: "offsets_exact w0" and c0: "length (xrefOffsets w0) = 0"
    by (simp_all add: w0_def write_string_exact xrefOffsets_write_string)
  have one: "show_nat (Suc 0) = [49]" and two: "show_nat 2 = [50]"
    by (simp_all add: show_nat.simps)
  have "\<exists>t. s1 = show_nat 1 @ ascii '' 0 obj'' @ t"
    by (simp add: s1_def one ascii_def)
  from write_object_exact [OF e0 _ this]
  have e1: "offsets_exact w1" and c1: "length (xrefOffsets w1) = 1"
    by (simp_all add: w1_def c0)
  have "\<exists>t. s2 = show_nat 2 @ ascii '' 0 obj'' @ t"
    by (simp add: s2_def two ascii_def)
  from write_object_exact [OF e1 _ this] show ?thesis
    unfolding pre by (simp add: c1)
qed

lemma write_objects_exact:
  "offsets_exact (write_objects deflate pageImages width height)
   \<and> length (xrefOffsets (write_objects deflate pageImages width height)) = 2 + 3 * length pageImages"
proof -
  have "offsets_exact (write_preamble (length pageImages))"
    and "length (xrefOffsets (write_preamble (length pageImages))) = 0 * 3 + 2"
    using write_preamble_exact [of "length pageImages"] by simp_all
  from write_pages_exact [OF this] show ?thesis
    by (simp add: write_objects_def)
qed


lemma stream_write_string:
  "concat (chunks (write_string s w)) = concat (chunks w) @ utf8_encode s"
  by (simp add: write_string_def write_bytes_def)

lemma fold_write_string:
  "concat (chunks (fold (\<lambda>x. write_string (f x)) xs w)) =
     concat (chunks w) @ concat (map (\<lambda>x. utf8_encode (f x)) xs)
   \<and> xrefOffsets (fold (\<lambda>x. write_string (f x)) xs w) = xrefOffsets w"
  by (induction xs arbitrary: w) (simp_all add: write_string_def write_bytes_def)

lemma xref_entry_ascii:
  "\<forall>c\<in>set (padStart 10 0x30 (show_nat offset) @ ascii '' 00000 n \<newline>''). c < 128"
  using show_nat_ascii [of offset] by (auto simp: padStart_def ascii_def)

lemma xref_trailer_stream:
  "concat (chunks (write_xref_trailer w)) =
   concat (chunks w) @ map of_nat (xref_section (xrefOffsets w) (byteOffset w))"
proof -
  let ?n = "length (xrefOffsets w) + 1"
  let ?entry = "\<lambda>offset. padStart 10 0x30 (show_nat offset) @ ascii '' 00000 n \<newline>''"
  have p1: "utf8_encode (ascii ''xref\<newline>'') = map of_nat (ascii ''xref\<newline>'')"
    by (rule utf8_encode_ascii) (simp add: ascii_def)
  have p2: "utf8_encode (ascii ''0 '' @ show_nat ?n @ ascii ''\<newline>'')
      = map of_nat (ascii ''0 '' @ show_nat ?n @ ascii ''\<newline>'')"
    by (rule utf8_encode_ascii) (use show_nat_ascii [of ?n] in \<open>auto simp: ascii_def\<close>)
  have p3: "utf8_encode (ascii ''0000000000 65535 f \<newline>'') = map of_nat (ascii ''0000000000 65535 f \<newline>'')"
    by (rule utf8_encode_ascii) (simp add: ascii_def)
  have p4: "(\<lambda>offset. utf8_encode (?entry offset)) = (\<lambda>offset. map of_nat (?entry offset))"
    by (rule ext, rule utf8_encode_ascii, rule xref_entry_ascii)
  have p5: "utf8_encode (ascii ''trailer\<newline>'') = map of_nat (ascii ''trailer\<newline>'')"
    by (rule utf8_encode_ascii) (simp add: ascii_def)
  have p6: "utf8_encode (ascii ''<< /Size '' @ show_nat ?n @ ascii '' /Root 1 0 R >>\<newline>'')
      = map of_nat (ascii ''<< /Size '' @ show_nat ?n @ ascii '' /Root 1 0 R >>\<newline>'')"
    by (rule utf8_encode_ascii) (use show_nat_ascii [of ?n] in \<open>auto simp: ascii_def\<close>)
  have p7: "utf8_encode (ascii ''startxref\<newline>'') = map of_nat (ascii ''startxref\<newline>'')"
    by (rule utf8_encode_ascii) (simp add: ascii_def)
  have p8: "utf8_encode (show_nat (byteOffset w) @ ascii ''\<newline>'')
      = map of_nat (show_nat (byteOffset w) @ ascii ''\<newline>'')"
    by (rule utf8_encode_ascii) (use show_nat_ascii [of "byteOffset w"] in \<open>auto simp: ascii_def\<close>)
  have p9: "utf8_encode (ascii ''%%EOF\<newline>'') = map of_nat (ascii ''%%EOF\<newline>'')"
    by (rule utf8_encode_ascii) (simp add: ascii_def)
  have "concat (chunks (write_xref_trailer w)) =
      concat (chunks w) @ utf8_encode (ascii ''xref\<newline>'') @
      utf8_encode (ascii ''0 '' @ show_nat ?n @ ascii ''\<newline>'') @
      utf8_encode (ascii ''0000000000 65535 f \<newline>'') @
      concat (map (\<lambda>offset. utf8_encode (?entry offset)) (xrefOffsets w)) @
      utf8_encode (ascii ''trailer\<newline>'') @
      utf8_encode (ascii ''<< /Size '' @ show_nat ?n @ ascii '' /Root 1 0 R >>\<newline>'') @
      utf8_encode (ascii ''startxref\<newline>'') @
      utf8_encode (show_nat (byteOffset w) @ ascii ''\<newline>'') @
      utf8_encode (ascii ''%%EOF\<newline>'')"
    by (simp add: write_xref_trailer_def Let_def fold_write_string xrefOffsets_write_string
        stream_write_string del: utf8_encode.simps)
  also have "\<dots> = concat (chunks w) @ map of_nat (xref_section (xrefOffsets w) (byteOffset w))"
    unfolding p1 p2 p3 p4 p5 p6 p7 p8 p9
    by (simp add: xref_section_def map_concat comp_def ascii_def)
  finally show ?thesis .
qed

lemma write_page_extends:
  "\<exists>cs os. chunks (write_page deflate pdfWidth pdfHeight width height i pageImage w) = chunks w @ cs
     \<and> xrefOffsets (write_page deflate pdfWidth pdfHeight width height i pageImage w) = xrefOffsets w @ os"
  by (simp add: write_page_def Let_def write_string_def write_bytes_def push_offset_def)

lemma write_pages_extends:
  "\<exists>cs os. chunks (write_pages deflate pdfWidth pdfHeight width height i pageImages w) = chunks w @ cs
     \<and> xrefOffsets (write_pages deflate pdfWidth pdfHeight width height i pageImages w) = xrefOffsets w @ os"
proof (induction pageImages arbitrary: i w)
  case Nil
  then show ?case by simp
next
  case (Cons pageImage rest)
  obtain cs os where page:
    "chunks (write_page deflate pdfWidth pdfHeight width height i pageImage w) = chunks w @ cs"
    "xrefOffsets (write_page deflate pdfWidth pdfHeight width height i pageImage w) = xrefOffsets w @ os"
    using write_page_extends by blast
  obtain cs' os' where rest:
    "chunks (write_pages deflate pdfWidth pdfHeight width height (i + 1) rest
       (write_page deflate pdfWidth pdfHeight width height i pageImage w))
     = chunks (write_page deflate pdfWidth pdfHeight width height i pageImage w) @ cs'"
    "xrefOffsets (write_pages deflate pdfWidth pdfHeight width height (i + 1) rest
       (write_page deflate pdfWidth pdfHeight width height i pageImage w))
     = xrefOffsets (write_page deflate pdfWidth pdfHeight width height i pageImage w) @ os'"
    using Cons.IH by blast
  from rest page show ?case
    by simp
qed

lemma write_preamble_catalog:
  "xrefOffsets (write_preamble pageCount) ! 0 = 19
   \<and> (\<exists>rest. drop 19 (concat (chunks (write_preamble pageCount))) =
         map of_nat (ascii ''1 0 obj\<newline><< /Type /Catalog /Pages 2 0 R >>\<newline>endobj\<newline>'') @ rest)"
  by (simp add: write_preamble_def Let_def write_string_def write_bytes_def push_offset_def ascii_def)

lemma write_objects_catalog:
  "xrefOffsets (write_objects deflate pageImages width height) ! 0 = 19
   \<and> (\<exists>rest. drop 19 (concat (chunks (write_objects deflate pageImages width height))) =
         map of_nat (ascii ''1 0 obj\<newline><< /Type /Catalog /Pages 2 0 R >>\<newline>endobj\<newline>'') @ rest)"
proof -
  let ?pre = "write_preamble (length pageImages)"
  obtain cs os where ext:
    "chunks (write_objects deflate pageImages width height) = chunks ?pre @ cs"
    "xrefOffsets (write_objects deflate pageImages width height) = xrefOffsets ?pre @ os"
    unfolding write_objects_def using write_pages_extends by blast
  from write_preamble_catalog [of "length pageImages"] obtain rest where
    first: "xrefOffsets ?pre ! 0 = 19"
    and cat: "drop 19 (concat (chunks ?pre)) =
      map of_nat (ascii ''1 0 obj\<newline><< /Type /Catalog /Pages 2 0 R >>\<newline>endobj\<newline>'') @ rest"
    by blast
  from cat have long: "19 \<le> length (concat (chunks ?pre))"
    by (cases "19 \<le> length (concat (chunks ?pre))") (simp_all add: ascii_def)
  have "0 < length (xrefOffsets ?pre)"
    using write_preamble_exact [of "length pageImages"] by simp
  then have "xrefOffsets (write_objects deflate pageImages width height) ! 0 = 19"
    by (simp add: ext nth_append first)
  moreover have "drop 19 (concat (chunks (write_objects deflate pageImages width height))) =
      map of_nat (ascii ''1 0 obj\<newline><< /Type /Catalog /Pages 2 0 R >>\<newline>endobj\<newline>'') @
      (rest @ concat cs)"
    using long by (simp add: ext cat)
  ultimately show ?thesis
    by blast
qed

text \<open>
  C4. For every list of page rasters, \<^verbatim>\<open>buildPDF\<close> records one offset for each of the
  \<open>2 + 3 * pages\<close> objects, and the offset recorded for object \<open>N\<close> is the position
  in the emitted bytes where the text \<^verbatim>\<open>N 0 obj\<close> begins; object 1 is the catalog.
  The bytes after the objects are the cross-reference section for exactly these
  offsets (the entry of object 0 is the free-list entry), the trailer with the object
  count and \<^verbatim>\<open>/Root 1 0 R\<close>, and \<^verbatim>\<open>startxref\<close> with the position where the section
  itself begins.
\<close>

theorem buildPDF_xref_table:
  fixes deflate :: deflater and pageImages :: "byte list list" and width height :: nat
  defines "objects \<equiv> write_objects deflate pageImages width height"
    and "out \<equiv> buildPDF deflate pageImages width height"
  shows "length (xrefOffsets objects) = 2 + 3 * length pageImages
    \<and> (\<forall>N. 1 \<le> N \<and> N \<le> length (xrefOffsets objects) \<longrightarrow>
          object_at out N (xrefOffsets objects ! (N - 1)))
    \<and> prefix (map of_nat (ascii ''1 0 obj\<newline><< /Type /Catalog''))
          (drop (xrefOffsets objects ! 0) out)
    \<and> out = concat (chunks objects) @
            map of_nat (xref_section (xrefOffsets objects) (length (concat (chunks objects))))"
proof -
  have exact: "offsets_exact objects"
    and count: "length (xrefOffsets objects) = 2 + 3 * length pageImages"
    using write_objects_exact [of deflate pageImages width height] by (simp_all add: objects_def)
  from exact have off: "byteOffset objects = length (concat (chunks objects))"
    by (simp add: offsets_exact_def)
  have out: "out = concat (chunks objects) @
      map of_nat (xref_section (xrefOffsets objects) (length (concat (chunks objects))))"
    by (simp add: out_def buildPDF_def objects_def [symmetric] xref_trailer_stream off)
  have "object_at out N (xrefOffsets objects ! (N - 1))"
    if "1 \<le> N \<and> N \<le> length (xrefOffsets objects)" for N
  proof -
    from that have "N - 1 < length (xrefOffsets objects)" and "N - 1 + 1 = N"
      by auto
    with exact have "object_at (concat (chunks objects)) N (xrefOffsets objects ! (N - 1))"
      by (auto simp: offsets_exact_def)
    then show ?thesis
      by (subst out) (rule object_at_append)
  qed
  moreover have "prefix (map of_nat (ascii ''1 0 obj\<newline><< /Type /Catalog''))
      (drop (xrefOffsets objects ! 0) out)"
  proof -
    from write_objects_catalog [of deflate pageImages width height] obtain rest where
      first: "xrefOffsets objects ! 0 = 19"
      and cat: "drop 19 (concat (chunks objects)) =
        map of_nat (ascii ''1 0 obj\<newline><< /Type /Catalog /Pages 2 0 R >>\<newline>endobj\<newline>'') @ rest"
      unfolding objects_def by blast
    from cat have long: "19 \<le> length (concat (chunks objects))"
      by (cases "19 \<le> length (concat (chunks objects))") (simp_all add: ascii_def)
    have "drop 19 out =
        map of_nat (ascii ''1 0 obj\<newline><< /Type /Catalog /Pages 2 0 R >>\<newline>endobj\<newline>'') @ rest @
        map of_nat (xref_section (xrefOffsets objects) (length (concat (chunks objects))))"
      using long by (subst out) (simp add: cat)
    then show ?thesis
      by (simp add: first ascii_def)
  qed
  ultimately show ?thesis
    using count out by blast
qed

theorem buildPDF_xref_table_witness:
  "length (xrefOffsets (write_objects stored [[1, 2, 3]] 1404 1872)) = 5
   \<and> object_at (buildPDF stored [[1, 2, 3]] 1404 1872) 1 19
   \<and> object_at (buildPDF stored [[1, 2, 3]] 1404 1872) 5
        (xrefOffsets (write_objects stored [[1, 2, 3]] 1404 1872) ! 4)"
proof -
  let ?objects = "write_objects stored [[1, 2, 3]] 1404 1872"
  let ?out = "buildPDF stored [[1, 2, 3]] 1404 1872"
  note table = buildPDF_xref_table [of stored "[[1, 2, 3]]" 1404 1872]
  from table have count: "length (xrefOffsets ?objects) = 5"
    by simp
  then have range: "1 \<le> (1::nat) \<and> 1 \<le> length (xrefOffsets ?objects)"
    "1 \<le> (5::nat) \<and> 5 \<le> length (xrefOffsets ?objects)"
    by simp_all
  from table have at: "\<forall>N. 1 \<le> N \<and> N \<le> length (xrefOffsets ?objects) \<longrightarrow>
      object_at ?out N (xrefOffsets ?objects ! (N - 1))"
    by blast
  from at range(1) have "object_at ?out 1 (xrefOffsets ?objects ! (1 - 1))"
    by blast
  moreover have "xrefOffsets ?objects ! 0 = 19"
    using write_objects_catalog [of stored "[[1, 2, 3]]" 1404 1872] by blast
  moreover from at range(2) have "object_at ?out 5 (xrefOffsets ?objects ! (5 - 1))"
    by blast
  ultimately show ?thesis
    using count by simp
qed

end
